theory Spec2Isabelle
  imports Main "HOL-Library.Multiset"
begin

section \<open>Text primitives\<close>

text \<open>
  The module works on JavaScript strings. They are modelled as \<^typ>\<open>string\<close>, read as
  ASCII text: one \<^typ>\<open>char\<close> per UTF-16 code unit below 128. The primitives below are the
  ASCII behaviour of the built-ins the module calls (\<^verbatim>\<open>toLowerCase\<close>, \<^verbatim>\<open>trim\<close>,
  \<^verbatim>\<open>includes\<close>, \<^verbatim>\<open>startsWith\<close>, \<^verbatim>\<open>split\<close>, \<^verbatim>\<open>substring\<close>, \<^verbatim>\<open>lastIndexOf\<close>).
\<close>

definition is_upper :: "char \<Rightarrow> bool" where
  "is_upper c = (65 \<le> (of_char c :: nat) \<and> (of_char c :: nat) \<le> 90)"

definition is_lower :: "char \<Rightarrow> bool" where
  "is_lower c = (97 \<le> (of_char c :: nat) \<and> (of_char c :: nat) \<le> 122)"

definition is_digit :: "char \<Rightarrow> bool" where
  "is_digit c = (48 \<le> (of_char c :: nat) \<and> (of_char c :: nat) \<le> 57)"

definition lower_char :: "char \<Rightarrow> char" where
  "lower_char c = (if is_upper c then char_of ((of_char c :: nat) + 32) else c)"

definition toLowerCase :: "string \<Rightarrow> string" where
  "toLowerCase s = map lower_char s"

text \<open>White space as \<^verbatim>\<open>trim\<close> and the regular-expression class \<^verbatim>\<open>\s\<close> see it (ASCII part):
  tab, line feed, vertical tab, form feed, carriage return, space.\<close>

definition is_space :: "char \<Rightarrow> bool" where
  "is_space c = (c = CHR 0x09 \<or> c = CHR 0x0A \<or> c = CHR 0x0B \<or> c = CHR 0x0C \<or> c = CHR 0x0D \<or> c = CHR '' '')"

definition trim :: "string \<Rightarrow> string" where
  "trim s = rev (dropWhile is_space (rev (dropWhile is_space s)))"

fun startsWith :: "string \<Rightarrow> string \<Rightarrow> bool" where
  "startsWith s [] = True"
| "startsWith [] (p # ps) = False"
| "startsWith (c # cs) (p # ps) = (c = p \<and> startsWith cs ps)"

text \<open>\<^verbatim>\<open>s.includes(t)\<close>: \<^verbatim>\<open>t\<close> occurs in \<^verbatim>\<open>s\<close> at some index.\<close>

fun str_includes :: "string \<Rightarrow> string \<Rightarrow> bool" where
  "str_includes [] t = (t = [])"
| "str_includes (c # cs) t = (startsWith (c # cs) t \<or> str_includes cs t)"

text \<open>\<^verbatim>\<open>s.split(sep)\<close> for a one-character separator: never the empty list.\<close>

fun split_on :: "char \<Rightarrow> string \<Rightarrow> string list" where
  "split_on sep [] = [[]]"
| "split_on sep (c # cs) =
     (if c = sep then [] # split_on sep cs
      else (case split_on sep cs of p # ps \<Rightarrow> (c # p) # ps | [] \<Rightarrow> [[c]]))"

section \<open>Regular expressions\<close>

text \<open>
  The parser is written with JavaScript regular expressions. They are modelled by a syntax
  tree and a backtracking matcher that lists the ways a pattern can match at a position in the
  order in which the engine tries them (first alternative first, greedy quantifiers longest
  first, lazy ones shortest first), so that the head of the list is the match JavaScript
  reports. Only the constructs that occur in the module are covered; no pattern of the module
  has a capture group below a quantifier.
\<close>

datatype regex =
    Lit char                      \<comment> \<open>a pattern character; compared modulo case under flag \<^verbatim>\<open>i\<close>\<close>
  | Atom "char \<Rightarrow> bool"            \<comment> \<open>a character class\<close>
  | Eps
  | Seq regex regex
  | Alt regex regex
  | Star regex                    \<comment> \<open>\<^verbatim>\<open>r*\<close>\<close>
  | StarLazy regex                \<comment> \<open>\<^verbatim>\<open>r*?\<close>\<close>
  | Grp nat regex                 \<comment> \<open>capture group number \<open>n\<close>\<close>
  | WordB                         \<comment> \<open>\<^verbatim>\<open>\b\<close>\<close>
  | EndOfInput                    \<comment> \<open>\<^verbatim>\<open>$\<close> (no flag \<^verbatim>\<open>m\<close>)\<close>

definition Plus :: "regex \<Rightarrow> regex" where
  "Plus r = Seq r (Star r)"

definition PlusLazy :: "regex \<Rightarrow> regex" where
  "PlusLazy r = Seq r (StarLazy r)"

definition Opt :: "regex \<Rightarrow> regex" where
  "Opt r = Alt r Eps"

fun Str :: "string \<Rightarrow> regex" where
  "Str [] = Eps"
| "Str (c # cs) = Seq (Lit c) (Str cs)"

fun Alts :: "regex list \<Rightarrow> regex" where
  "Alts [] = Eps"
| "Alts [r] = r"
| "Alts (r # rs) = Alt r (Alts rs)"

fun Seqs :: "regex list \<Rightarrow> regex" where
  "Seqs [] = Eps"
| "Seqs [r] = r"
| "Seqs (r # rs) = Seq r (Seqs rs)"

text \<open>The captures: group number to captured text, \<^const>\<open>None\<close> for \<^verbatim>\<open>undefined\<close>.\<close>

type_synonym caps = "nat \<Rightarrow> string option"

text \<open>A position in the subject: the character before it (for \<^verbatim>\<open>\b\<close>), the text from it on,
  and the captures so far.\<close>

type_synonym mstate = "char option \<times> string \<times> caps"

definition is_word_char :: "char \<Rightarrow> bool" where
  "is_word_char c = (is_upper c \<or> is_lower c \<or> is_digit c \<or> c = CHR ''_'')"

definition at_word_boundary :: "char option \<Rightarrow> string \<Rightarrow> bool" where
  "at_word_boundary p s =
    ((case p of None \<Rightarrow> False | Some a \<Rightarrow> is_word_char a) \<noteq>
     (case s of [] \<Rightarrow> False | b # _ \<Rightarrow> is_word_char b))"

definition lit_eq :: "bool \<Rightarrow> char \<Rightarrow> char \<Rightarrow> bool" where
  "lit_eq ci a b = (if ci then lower_char a = lower_char b else a = b)"

function matches :: "bool \<Rightarrow> regex \<Rightarrow> mstate \<Rightarrow> mstate list" where
  "matches ci (Lit a) (p, s, c) =
     (case s of [] \<Rightarrow> [] | x # xs \<Rightarrow> if lit_eq ci a x then [(Some x, xs, c)] else [])"
| "matches ci (Atom P) (p, s, c) =
     (case s of [] \<Rightarrow> [] | x # xs \<Rightarrow> if P x then [(Some x, xs, c)] else [])"
| "matches ci Eps (p, s, c) = [(p, s, c)]"
| "matches ci (Seq r1 r2) (p, s, c) =
     concat (map (\<lambda>m. matches ci r2 m) (matches ci r1 (p, s, c)))"
| "matches ci (Alt r1 r2) (p, s, c) = matches ci r1 (p, s, c) @ matches ci r2 (p, s, c)"
| "matches ci (Star r) (p, s, c) =
     concat (map (\<lambda>m. if length (fst (snd m)) < length s then matches ci (Star r) m else [])
                 (matches ci r (p, s, c)))
     @ [(p, s, c)]"
| "matches ci (StarLazy r) (p, s, c) =
     (p, s, c) #
     concat (map (\<lambda>m. if length (fst (snd m)) < length s then matches ci (StarLazy r) m else [])
                 (matches ci r (p, s, c)))"
| "matches ci (Grp n r) (p, s, c) =
     map (\<lambda>(p', s', c'). (p', s', c'(n := Some (take (length s - length s') s))))
         (matches ci r (p, s, c))"
| "matches ci WordB (p, s, c) = (if at_word_boundary p s then [(p, s, c)] else [])"
| "matches ci EndOfInput (p, s, c) = (if s = [] then [(p, s, c)] else [])"
  by pat_completeness auto
termination
  by (relation "measures [\<lambda>(ci, r, m). size r, \<lambda>(ci, r, m). length (fst (snd m))]") auto

text \<open>The result of a successful search: the text skipped before the match, the matched text,
  the captures, and the position after the match.\<close>

record found =
  m_before :: string
  matched :: string
  groups :: caps
  prev_after :: "char option"
  m_after :: string

text \<open>\<^verbatim>\<open>re.exec\<close>: the leftmost start position at which the pattern matches, and there the
  first match in backtracking order.\<close>

fun search_from :: "bool \<Rightarrow> regex \<Rightarrow> char option \<Rightarrow> string \<Rightarrow> found option" where
  "search_from ci r p [] =
     (case matches ci r (p, [], \<lambda>_. None) of
        [] \<Rightarrow> None
      | (p', s', c') # _ \<Rightarrow>
          Some \<lparr>m_before = [], matched = [], groups = c', prev_after = p', m_after = s'\<rparr>)"
| "search_from ci r p (x # xs) =
     (case matches ci r (p, x # xs, \<lambda>_. None) of
        [] \<Rightarrow> map_option (\<lambda>f. f\<lparr>m_before := x # m_before f\<rparr>) (search_from ci r (Some x) xs)
      | (p', s', c') # _ \<Rightarrow>
          Some \<lparr>m_before = [], matched = take (length (x # xs) - length s') (x # xs),
                groups = c', prev_after = p', m_after = s'\<rparr>)"

text \<open>\<^verbatim>\<open>s.match(re)\<close> for a pattern without flag \<^verbatim>\<open>g\<close>, and \<^verbatim>\<open>re.test(s)\<close>.\<close>

definition str_match :: "bool \<Rightarrow> regex \<Rightarrow> string \<Rightarrow> found option" where
  "str_match ci r s = search_from ci r None s"

definition str_test :: "bool \<Rightarrow> regex \<Rightarrow> string \<Rightarrow> bool" where
  "str_test ci r s = (str_match ci r s \<noteq> None)"

text \<open>\<^verbatim>\<open>s.match(re)\<close> for a pattern with flag \<^verbatim>\<open>g\<close>: the matched texts from left to right
  (the empty list where JavaScript returns \<^verbatim>\<open>null\<close>). After an empty match the search moves
  on by one character.\<close>

function match_all :: "bool \<Rightarrow> regex \<Rightarrow> char option \<Rightarrow> string \<Rightarrow> string list" where
  "match_all ci r p s =
     (case search_from ci r p s of
        None \<Rightarrow> []
      | Some f \<Rightarrow>
          matched f #
          (if length (m_after f) < length s then match_all ci r (prev_after f) (m_after f)
           else (case s of [] \<Rightarrow> [] | x # xs \<Rightarrow> match_all ci r (Some x) xs)))"
  by pat_completeness auto
termination
  by (relation "measure (\<lambda>(ci, r, p, s). length s)") auto

text \<open>\<^verbatim>\<open>s.replace(re, repl)\<close> for a pattern with flag \<^verbatim>\<open>g\<close> and a replacement text without
  \<^verbatim>\<open>$\<close> references.\<close>

function replace_all :: "bool \<Rightarrow> regex \<Rightarrow> string \<Rightarrow> char option \<Rightarrow> string \<Rightarrow> string" where
  "replace_all ci r repl p s =
     (case search_from ci r p s of
        None \<Rightarrow> s
      | Some f \<Rightarrow>
          m_before f @ repl @
          (if length (m_after f) < length s then replace_all ci r repl (prev_after f) (m_after f)
           else (case s of [] \<Rightarrow> [] | x # xs \<Rightarrow> x # replace_all ci r repl (Some x) xs)))"
  by pat_completeness auto
termination
  by (relation "measure (\<lambda>(ci, r, repl, p, s). length s)") auto

declare match_all.simps [simp del] replace_all.simps [simp del]

text \<open>\<^verbatim>\<open>s.split(re)\<close> for a pattern without capture groups that matches no empty text (both
  patterns the module splits on are such): at each index the pattern is tried at that index
  only; a match closes the current piece.\<close>

function split_re :: "bool \<Rightarrow> regex \<Rightarrow> char option \<Rightarrow> string \<Rightarrow> string \<Rightarrow> string list" where
  "split_re ci r p piece [] = [rev piece]"
| "split_re ci r p piece (x # xs) =
     (case matches ci r (p, x # xs, \<lambda>_. None) of
        [] \<Rightarrow> split_re ci r (Some x) (x # piece) xs
      | (p', s', c') # _ \<Rightarrow>
          if length s' < length (x # xs) then rev piece # split_re ci r p' [] s'
          else split_re ci r (Some x) (x # piece) xs)"
  by pat_completeness auto
termination
  by (relation "measure (\<lambda>(ci, r, p, piece, s). length s)") auto

section \<open>Data model\<close>

record author =
  name :: string
  github :: string

datatype complexity = Low | Medium | High

text \<open>Interface \<^verbatim>\<open>LocalACP\<close>; an optional field (\<^verbatim>\<open>?:\<close>) is an \<^typ>\<open>'a option\<close>, \<^const>\<open>None\<close> for
  \<^verbatim>\<open>undefined\<close>.\<close>

record LocalACP =
  number :: string
  title :: string
  authors :: "author list"
  status :: string
  track :: string
  content :: string
  discussion :: "string option"
  abstract :: "string option"
  complexity :: "complexity option"
  tags :: "string list option"
  wordCount :: "nat option"
  readingTime :: "nat option"
  lastUpdated :: "string option"
  dependencies :: "string list option"
  replaces :: "string list option"
  supersededBy :: "string list option"
  folderName :: "string option"

text \<open>A JavaScript value used as a condition: \<^verbatim>\<open>undefined\<close> and the empty string are falsy.\<close>

definition truthy :: "string option \<Rightarrow> bool" where
  "truthy v = (case v of None \<Rightarrow> False | Some t \<Rightarrow> t \<noteq> [])"

text \<open>The text of a group that takes part in every match of its pattern.\<close>

definition group_text :: "found \<Rightarrow> nat \<Rightarrow> string" where
  "group_text m k = (case groups m k of None \<Rightarrow> [] | Some t \<Rightarrow> t)"

section \<open>Field sub-parsers\<close>

definition ws :: regex where
  "ws = Atom is_space"

text \<open>\<^verbatim>\<open>replace(/\*\*/g, '')\<close>\<close>

definition strip_bold :: "string \<Rightarrow> string" where
  "strip_bold s = replace_all False (Str ''**'') [] None s"

subsection \<open>parseAuthors\<close>

text \<open>\<^verbatim>\<open>/[,\n]|\sand\s/\<close>\<close>

definition re_author_sep :: regex where
  "re_author_sep =
     Alt (Atom (\<lambda>c. c = CHR '','' \<or> c = CHR 0x0A)) (Seqs [ws, Str ''and'', ws])"

text \<open>\<^verbatim>\<open>/\[([^\]]+)\]\(https?:\/\/github\.com\/([^)\/\s]+)[^)]*\)/\<close>\<close>

definition re_markdown_link :: regex where
  "re_markdown_link =
     Seqs [Lit CHR ''['', Grp 1 (Plus (Atom (\<lambda>c. c \<noteq> CHR '']''))), Str ''](http'',
           Opt (Lit CHR ''s''), Str ''://github.com/'',
           Grp 2 (Plus (Atom (\<lambda>c. c \<noteq> CHR '')'' \<and> c \<noteq> CHR ''/'' \<and> \<not> is_space c))),
           Star (Atom (\<lambda>c. c \<noteq> CHR '')'')), Lit CHR '')'']"

text \<open>\<^verbatim>\<open>/([^(@\n]+?)\s*\(\s*[@]?([^)]+)\)/\<close>\<close>

definition re_username :: regex where
  "re_username =
     Seqs [Grp 1 (PlusLazy (Atom (\<lambda>c. c \<noteq> CHR ''('' \<and> c \<noteq> CHR ''@'' \<and> c \<noteq> CHR 0x0A))),
           Star ws, Lit CHR ''('', Star ws, Opt (Atom (\<lambda>c. c = CHR ''@'')),
           Grp 2 (Plus (Atom (\<lambda>c. c \<noteq> CHR '')''))), Lit CHR '')'']"

text \<open>\<^verbatim>\<open>/(?:https?:\/\/)?(?:www\.)?github\.com\/([^\/\s\),]+)/\<close>\<close>

definition re_github_url :: regex where
  "re_github_url =
     Seqs [Opt (Seqs [Str ''http'', Opt (Lit CHR ''s''), Str ''://'']), Opt (Str ''www.''),
           Str ''github.com/'',
           Grp 1 (Plus (Atom (\<lambda>c. c \<noteq> CHR ''/'' \<and> \<not> is_space c \<and> c \<noteq> CHR '')'' \<and> c \<noteq> CHR '','')))]"

text \<open>\<^verbatim>\<open>/https?:\/\/github\.com\/([^\/\s\),]+)/\<close>\<close>

definition re_direct_url :: regex where
  "re_direct_url =
     Seqs [Str ''http'', Opt (Lit CHR ''s''), Str ''://github.com/'',
           Grp 1 (Plus (Atom (\<lambda>c. c \<noteq> CHR ''/'' \<and> \<not> is_space c \<and> c \<noteq> CHR '')'' \<and> c \<noteq> CHR '','')))]"

text \<open>\<^verbatim>\<open>/([^<]+)\s*<[^>]+>/\<close>\<close>

definition re_email :: regex where
  "re_email =
     Seqs [Grp 1 (Plus (Atom (\<lambda>c. c \<noteq> CHR ''<''))), Star ws, Lit CHR ''<'',
           Plus (Atom (\<lambda>c. c \<noteq> CHR ''>'')), Lit CHR ''>'']"

text \<open>\<^verbatim>\<open>name.toLowerCase().replace(/\s+/g, '').replace(/[^a-z0-9]/g, '')\<close>: each of the two
  replacements deletes every character of a class.\<close>

definition synth_github :: "string \<Rightarrow> string" where
  "synth_github name' =
     filter (\<lambda>c. is_lower c \<or> is_digit c) (filter (\<lambda>c. \<not> is_space c) (toLowerCase name'))"

text \<open>Pattern 2: the GitHub user name out of the parenthesised part. The first piece of a split
  always exists.\<close>

definition username_github :: "string \<Rightarrow> string" where
  "username_github githubPart =
     (case str_match False re_github_url githubPart of
        Some urlMatch \<Rightarrow>
          if truthy (groups urlMatch 1) then group_text urlMatch 1
          else (case split_re False (Atom (\<lambda>c. c = CHR '','' \<or> is_space c)) None []
                       (filter (\<lambda>c. \<not> (c = CHR ''@'' \<or> is_space c)) githubPart) of
                  [] \<Rightarrow> [] | g # _ \<Rightarrow> g)
      | None \<Rightarrow>
          (case split_re False (Atom (\<lambda>c. c = CHR '','' \<or> is_space c)) None []
                  (filter (\<lambda>c. \<not> (c = CHR ''@'' \<or> is_space c)) githubPart) of
             [] \<Rightarrow> [] | g # _ \<Rightarrow> g))"

text \<open>The five patterns of the \<^verbatim>\<open>forEach\<close> body, each giving the author it pushes, if any.\<close>

definition pattern1 :: "string \<Rightarrow> author option" where
  "pattern1 part =
     (case str_match False re_markdown_link part of
        None \<Rightarrow> None
      | Some m \<Rightarrow>
          if truthy (groups m 1) \<and> truthy (groups m 2) then
            let name' = trim (group_text m 1); github' = trim (group_text m 2)
            in if name' \<noteq> [] \<and> github' \<noteq> [] \<and> name' \<noteq> ''Author(s)''
               then Some \<lparr>name = name', github = github'\<rparr> else None
          else None)"

definition pattern2 :: "string \<Rightarrow> author option" where
  "pattern2 part =
     (case str_match False re_username part of
        None \<Rightarrow> None
      | Some m \<Rightarrow>
          if truthy (groups m 1) then
            let name' = trim (group_text m 1);
                githubPart = trim (group_text m 2);
                github' = username_github githubPart
            in if name' \<noteq> [] \<and> github' \<noteq> [] \<and> name' \<noteq> ''Author(s)''
               then Some \<lparr>name = name', github = github'\<rparr> else None
          else None)"

definition pattern3 :: "string \<Rightarrow> author option" where
  "pattern3 part =
     (case str_match False re_direct_url part of
        None \<Rightarrow> None
      | Some m \<Rightarrow>
          if truthy (groups m 1) then
            let github' = group_text m 1; name' = github'
            in Some \<lparr>name = name', github = github'\<rparr>
          else None)"

definition pattern4 :: "string \<Rightarrow> author option" where
  "pattern4 part =
     (case str_match False re_email part of
        None \<Rightarrow> None
      | Some m \<Rightarrow>
          if truthy (groups m 1) then
            let name' = trim (group_text m 1)
            in if name' \<noteq> [] \<and> name' \<noteq> ''Author(s)''
               then Some \<lparr>name = name', github = synth_github name'\<rparr> else None
          else None)"

text \<open>\<^verbatim>\<open>part.replace(/[|@]/g, '').trim()\<close>\<close>

definition clean_part :: "string \<Rightarrow> string" where
  "clean_part part = trim (filter (\<lambda>c. \<not> (c = CHR ''|'' \<or> c = CHR ''@'')) part)"

definition pattern5 :: "string \<Rightarrow> author option" where
  "pattern5 part =
     (let cleanPart = clean_part part
      in if cleanPart \<noteq> [] \<and> cleanPart \<noteq> ''Author(s)'' \<and> length cleanPart > 1 \<and>
            \<not> str_includes cleanPart ''---'' \<and> \<not> startsWith cleanPart ''http''
         then Some \<lparr>name = cleanPart, github = synth_github cleanPart\<rparr> else None)"

text \<open>One run of the \<^verbatim>\<open>forEach\<close> body: the first pattern that pushes an author ends it.\<close>

definition parse_author_part :: "string \<Rightarrow> author option" where
  "parse_author_part part =
     (if str_includes part ''Author(s)'' \<or> part = ''---'' \<or> part = ''|'' then None
      else case pattern1 part of Some a \<Rightarrow> Some a | None \<Rightarrow>
           (case pattern2 part of Some a \<Rightarrow> Some a | None \<Rightarrow>
           (case pattern3 part of Some a \<Rightarrow> Some a | None \<Rightarrow>
           (case pattern4 part of Some a \<Rightarrow> Some a | None \<Rightarrow> pattern5 part))))"

definition author_parts :: "string \<Rightarrow> string list" where
  "author_parts text =
     (let cleanText = strip_bold (trim text)
      in filter (\<lambda>part. length part > 0) (map trim (split_re False re_author_sep None [] cleanText)))"

definition parseAuthors :: "string \<Rightarrow> author list" where
  "parseAuthors text = List.map_filter parse_author_part (author_parts text)"

subsection \<open>parseStatus\<close>

definition status_words :: "string list" where
  "status_words =
     [''Activated'', ''Implementable'', ''Proposed'', ''Draft'', ''Stale'', ''Withdrawn'', ''Final'']"

text \<open>\<^verbatim>\<open>/\[([^\]]+)\]|\b(Activated|Implementable|Proposed|Draft|Stale|Withdrawn|Final)\b/i\<close>\<close>

definition re_status :: regex where
  "re_status =
     Alt (Seqs [Lit CHR ''['', Grp 1 (Plus (Atom (\<lambda>c. c \<noteq> CHR '']''))), Lit CHR '']''])
         (Seqs [WordB, Grp 2 (Alts (map Str status_words)), WordB])"

text \<open>\<^verbatim>\<open>/\([^)]*\)/g\<close>\<close>

definition re_parenthetical :: regex where
  "re_parenthetical = Seqs [Lit CHR ''('', Star (Atom (\<lambda>c. c \<noteq> CHR '')'')), Lit CHR '')'']"

text \<open>\<^verbatim>\<open>(statusMatch?.[1] || statusMatch?.[2] || cleanText)\<close>\<close>

definition status_choice :: "string \<Rightarrow> string" where
  "status_choice cleanText =
     (case str_match True re_status cleanText of
        None \<Rightarrow> cleanText
      | Some statusMatch \<Rightarrow>
          if truthy (groups statusMatch 1) then group_text statusMatch 1
          else if truthy (groups statusMatch 2) then group_text statusMatch 2
          else cleanText)"

definition status_finish :: "string \<Rightarrow> string" where
  "status_finish status' =
     (let t = trim (replace_all False re_parenthetical [] None status')
      in if t = [] then ''Unknown'' else t)"

definition parseStatus :: "string \<Rightarrow> string" where
  "parseStatus text =
     (let cleanText = strip_bold (trim text);
          status' = trim (status_choice cleanText)
      in status_finish status')"

subsection \<open>parseDiscussionLink\<close>

text \<open>\<^verbatim>\<open>/\[Discussion\]\(([^)]+)\)/i\<close>\<close>

definition re_discussion1 :: regex where
  "re_discussion1 =
     Seqs [Str ''[Discussion]('', Grp 1 (Plus (Atom (\<lambda>c. c \<noteq> CHR '')''))), Lit CHR '')'']"

text \<open>\<^verbatim>\<open>/\[[^\]]*\]\(([^)]*github\.com[^)]*)\)/i\<close>\<close>

definition re_discussion2 :: regex where
  "re_discussion2 =
     Seqs [Lit CHR ''['', Star (Atom (\<lambda>c. c \<noteq> CHR '']'')), Str '']('',
           Grp 1 (Seqs [Star (Atom (\<lambda>c. c \<noteq> CHR '')'')), Str ''github.com'',
                        Star (Atom (\<lambda>c. c \<noteq> CHR '')''))]),
           Lit CHR '')'']"

text \<open>\<^verbatim>\<open>/(https?:\/\/[^\s)]+)/\<close>\<close>

definition re_discussion3 :: regex where
  "re_discussion3 =
     Grp 1 (Seqs [Str ''http'', Opt (Lit CHR ''s''), Str ''://'',
                  Plus (Atom (\<lambda>c. \<not> is_space c \<and> c \<noteq> CHR '')''))])"

definition parseDiscussionLink :: "string \<Rightarrow> string option" where
  "parseDiscussionLink text =
     (let match1 = str_match True re_discussion1 text;
          match2 = str_match True re_discussion2 text;
          match3 = str_match False re_discussion3 text
      in if (case match1 of None \<Rightarrow> False | Some m \<Rightarrow> truthy (groups m 1))
         then map_option (\<lambda>m. trim (group_text m 1)) match1
         else if (case match2 of None \<Rightarrow> False
                  | Some m \<Rightarrow> truthy (groups m 1) \<and> str_includes (group_text m 1) ''discussions'')
         then map_option (\<lambda>m. trim (group_text m 1)) match2
         else if (case match3 of None \<Rightarrow> False
                  | Some m \<Rightarrow> truthy (groups m 1) \<and> str_includes (group_text m 1) ''github'' \<and>
                             str_includes (group_text m 1) ''discussions'')
         then map_option (\<lambda>m. trim (group_text m 1)) match3
         else None)"

subsection \<open>parseACPReferences\<close>

text \<open>\<^verbatim>\<open>/ACP-(\d+)/g\<close>\<close>

definition re_acp_ref :: regex where
  "re_acp_ref = Seqs [Str ''ACP-'', Grp 1 (Plus (Atom is_digit))]"

text \<open>\<^verbatim>\<open>s.replace(pat, repl)\<close> for a text pattern: the first occurrence only.\<close>

fun replace_first :: "string \<Rightarrow> string \<Rightarrow> string \<Rightarrow> string" where
  "replace_first pat repl [] = (if pat = [] then repl else [])"
| "replace_first pat repl (c # cs) =
     (if startsWith (c # cs) pat then repl @ drop (length pat) (c # cs)
      else c # replace_first pat repl cs)"

definition parseACPReferences :: "string \<Rightarrow> string list" where
  "parseACPReferences text =
     map (\<lambda>match. replace_first ''ACP-'' [] match) (match_all False re_acp_ref None text)"

section \<open>Metadata enricher\<close>

subsection \<open>extractAbstract\<close>

text \<open>\<^verbatim>\<open>/##\s*Abstract\s*\n\n([^#]+)/i\<close>\<close>

definition re_abstract :: regex where
  "re_abstract =
     Seqs [Str ''##'', Star ws, Str ''Abstract'', Star ws, Lit CHR 0x0A, Lit CHR 0x0A,
           Grp 1 (Plus (Atom (\<lambda>c. c \<noteq> CHR ''#'')))]"

text \<open>\<^verbatim>\<open>s.lastIndexOf(' ')\<close>: the index of the last space, \<open>-1\<close> without one.\<close>

fun lastIndexOf :: "string \<Rightarrow> char \<Rightarrow> int" where
  "lastIndexOf [] ch = -1"
| "lastIndexOf (c # cs) ch =
     (let i = lastIndexOf cs ch in if i \<ge> 0 then i + 1 else if c = ch then 0 else -1)"

text \<open>\<^verbatim>\<open>s.substring(0, n)\<close> for \<open>n \<ge> 0\<close>.\<close>

definition substring0 :: "string \<Rightarrow> int \<Rightarrow> string" where
  "substring0 s n = take (nat n) s"

text \<open>The first branch of \<^verbatim>\<open>extractAbstract\<close>, from the captured text on.\<close>

definition abstract_excerpt :: "string \<Rightarrow> string" where
  "abstract_excerpt captured =
     (let abstract' = trim captured
      in if length abstract' > 200 then
           let truncated = substring0 abstract' 200;
               lastSpace = lastIndexOf truncated CHR '' ''
           in substring0 truncated (if lastSpace > 0 then lastSpace else 200) @ ''...''
         else abstract')"

text \<open>The fallback loop over the lines; \<open>afterTable\<close> is the flag of the source.\<close>

fun abstract_fallback :: "bool \<Rightarrow> string list \<Rightarrow> string" where
  "abstract_fallback afterTable [] = []"
| "abstract_fallback afterTable (line # rest) =
     (if startsWith line ''##'' \<and> afterTable then []
      else if str_includes line ''| **Track** |'' \<or> str_includes line ''|Track|''
           then abstract_fallback True rest
      else if afterTable \<and> trim line \<noteq> [] \<and> \<not> startsWith line ''|'' \<and> \<not> startsWith line ''#''
           then (if length line > 200 then substring0 line 200 @ ''...'' else line)
      else abstract_fallback afterTable rest)"

definition extractAbstract :: "string \<Rightarrow> string" where
  "extractAbstract markdown =
     (case str_match True re_abstract markdown of
        Some abstractMatch \<Rightarrow> abstract_excerpt (group_text abstractMatch 1)
      | None \<Rightarrow> abstract_fallback False (split_on CHR 0x0A markdown))"

subsection \<open>countWords, estimateComplexity, extractTags\<close>

text \<open>\<^verbatim>\<open>text.split(/\s+/).filter(word => word.length > 0).length\<close>\<close>

definition countWords :: "string \<Rightarrow> nat" where
  "countWords text =
     length (filter (\<lambda>word. length word > 0) (split_re False (Plus ws) None [] text))"

definition highComplexityKeywords :: "string list" where
  "highComplexityKeywords =
     [''consensus'', ''protocol'', ''cryptographic'', ''algorithm'', ''byzantine'',
      ''merkle'', ''signature'', ''verification'', ''validator'', ''staking'']"

definition mediumComplexityKeywords :: "string list" where
  "mediumComplexityKeywords =
     [''implementation'', ''specification'', ''interface'', ''architecture'',
      ''network'', ''node'', ''transaction'', ''block'']"

definition estimateComplexity :: "string \<Rightarrow> nat \<Rightarrow> complexity" where
  "estimateComplexity markdown wordCount' =
     (let content' = toLowerCase markdown;
          highKeywordCount =
            length (filter (\<lambda>keyword. str_includes content' keyword) highComplexityKeywords);
          mediumKeywordCount =
            length (filter (\<lambda>keyword. str_includes content' keyword) mediumComplexityKeywords)
      in if wordCount' > 4000 \<or> highKeywordCount \<ge> 3 then High
         else if wordCount' > 2000 \<or> highKeywordCount \<ge> 1 \<or> mediumKeywordCount \<ge> 3 then Medium
         else Low)"

definition tagMap :: "(string \<times> string list) list" where
  "tagMap =
     [(''subnet'', [''subnet'', ''subnets'', ''l1'']),
      (''consensus'', [''consensus'', ''validator'', ''staking'']),
      (''teleporter'', [''teleporter'', ''messaging'', ''interchain'']),
      (''security'', [''security'', ''cryptographic'', ''signature'']),
      (''performance'', [''performance'', ''optimization'', ''efficiency'']),
      (''api'', [''api'', ''interface'', ''rpc'']),
      (''governance'', [''governance'', ''voting'', ''proposal'']),
      (''economics'', [''economics'', ''fee'', ''reward'', ''token'']),
      (''networking'', [''network'', ''peer'', ''connection'', ''protocol'']),
      (''virtual-machine'', [''vm'', ''virtual machine'', ''evm''])]"

definition extractTags :: "string \<Rightarrow> string \<Rightarrow> string list" where
  "extractTags markdown title' =
     (let content' = toLowerCase (markdown @ '' '' @ title');
          tags' = map fst (filter (\<lambda>(tag, keywords).
                    list_ex (\<lambda>keyword. str_includes content' keyword) keywords) tagMap)
      in take 5 tags')"

section \<open>Table-header parser\<close>

text \<open>\<^verbatim>\<open>/\/(\d+)-([^/]+)\/README\.md$/\<close>\<close>

definition re_folder :: regex where
  "re_folder =
     Seqs [Lit CHR ''/'', Grp 1 (Plus (Atom is_digit)), Lit CHR ''-'',
           Grp 2 (Plus (Atom (\<lambda>c. c \<noteq> CHR ''/''))), Str ''/README.md'', EndOfInput]"

text \<open>\<^verbatim>\<open>/\|\s*ACP\s*\|/\<close>\<close>

definition re_table_start :: regex where
  "re_table_start = Seqs [Lit CHR ''|'', Star ws, Str ''ACP'', Star ws, Lit CHR ''|'']"

definition is_table_start :: "string \<Rightarrow> bool" where
  "is_table_start line =
     (str_includes line ''| ACP |'' \<or> str_includes line ''| **ACP** |'' \<or>
      str_test False re_table_start line)"

text \<open>\<^verbatim>\<open>/\|\s*\*\*?Label\*\*?\s*\|/\<close>, for each of the row labels.\<close>

definition re_row :: "string \<Rightarrow> regex" where
  "re_row label =
     Seqs [Lit CHR ''|'', Star ws, Lit CHR ''*'', Opt (Lit CHR ''*''), Str label,
           Lit CHR ''*'', Opt (Lit CHR ''*''), Star ws, Lit CHR ''|'']"

definition is_title_row :: "string \<Rightarrow> bool" where
  "is_title_row line =
     (str_includes line ''| **Title** |'' \<or> str_includes line ''|Title|'' \<or>
      str_test False (re_row ''Title'') line)"

definition is_authors_row :: "string \<Rightarrow> bool" where
  "is_authors_row line =
     (str_includes line ''| **Author(s)** |'' \<or> str_includes line ''|Author(s)|'' \<or>
      str_includes line ''| Author(s) |'' \<or> str_test False (re_row ''Author(s)'') line)"

definition is_status_row :: "string \<Rightarrow> bool" where
  "is_status_row line =
     (str_includes line ''| **Status** |'' \<or> str_includes line ''|Status|'' \<or>
      str_test False (re_row ''Status'') line)"

definition is_track_row :: "string \<Rightarrow> bool" where
  "is_track_row line =
     (str_includes line ''| **Track** |'' \<or> str_includes line ''|Track|'' \<or>
      str_test False (re_row ''Track'') line)"

definition is_depends_row :: "string \<Rightarrow> bool" where
  "is_depends_row line =
     (str_includes line ''| **Depends-On** |'' \<or> str_includes line ''|Depends-On|'' \<or>
      str_test False (re_row ''Depends-On'') line)"

definition is_replaces_row :: "string \<Rightarrow> bool" where
  "is_replaces_row line =
     (str_includes line ''| **Replaces** |'' \<or> str_includes line ''|Replaces|'' \<or>
      str_test False (re_row ''Replaces'') line)"

definition is_superseded_row :: "string \<Rightarrow> bool" where
  "is_superseded_row line =
     (str_includes line ''| **Superseded-By** |'' \<or> str_includes line ''|Superseded-By|'' \<or>
      str_test False (re_row ''Superseded-By'') line)"

text \<open>The local variables of the scan.\<close>

record scan_state =
  s_title :: string
  s_authors :: "author list"
  s_status :: string
  s_track :: string
  s_discussion :: "string option"
  s_dependencies :: "string list"
  s_replaces :: "string list"
  s_supersededBy :: "string list"
  inTable :: bool

definition scan_init :: scan_state where
  "scan_init =
     \<lparr>s_title = [], s_authors = [], s_status = [], s_track = [], s_discussion = Some [],
      s_dependencies = [], s_replaces = [], s_supersededBy = [], inTable = False\<rparr>"

text \<open>The \<^verbatim>\<open>if\<close>/\<^verbatim>\<open>else if\<close> chain over the row labels. A row with fewer than three
  \<^verbatim>\<open>|\<close>-separated slots changes nothing.\<close>

definition parse_row :: "scan_state \<Rightarrow> string \<Rightarrow> scan_state" where
  "parse_row st line =
     (let cells = split_on CHR ''|'' line
      in if is_title_row line then
           (if length cells \<ge> 3 then st\<lparr>s_title := strip_bold (trim (cells ! 2))\<rparr> else st)
         else if is_authors_row line then
           (if length cells \<ge> 3 then st\<lparr>s_authors := parseAuthors (cells ! 2)\<rparr> else st)
         else if is_status_row line then
           (if length cells \<ge> 3
            then st\<lparr>s_status := parseStatus (cells ! 2),
                    s_discussion := parseDiscussionLink (cells ! 2)\<rparr>
            else st)
         else if is_track_row line then
           (if length cells \<ge> 3 then st\<lparr>s_track := strip_bold (trim (cells ! 2))\<rparr> else st)
         else if is_depends_row line then
           (if length cells \<ge> 3 then st\<lparr>s_dependencies := parseACPReferences (cells ! 2)\<rparr> else st)
         else if is_replaces_row line then
           (if length cells \<ge> 3 then st\<lparr>s_replaces := parseACPReferences (cells ! 2)\<rparr> else st)
         else if is_superseded_row line then
           (if length cells \<ge> 3 then st\<lparr>s_supersededBy := parseACPReferences (cells ! 2)\<rparr> else st)
         else st)"

text \<open>The \<^verbatim>\<open>for\<close> loop over the lines, with its \<^verbatim>\<open>continue\<close>s and its \<^verbatim>\<open>break\<close>.\<close>

fun scan :: "scan_state \<Rightarrow> string list \<Rightarrow> scan_state" where
  "scan st [] = st"
| "scan st (line # rest) =
     (if trim line = [] then scan st rest
      else if is_table_start line then scan (st\<lparr>inTable := True\<rparr>) rest
      else if \<not> inTable st then scan st rest
      else if startsWith line ''##'' \<or> startsWith line ''# '' then st
      else scan (parse_row st line) rest)"

text \<open>\<^verbatim>\<open>Math.ceil(wordCount / 200)\<close>\<close>

definition readingTime_of :: "nat \<Rightarrow> nat" where
  "readingTime_of wordCount' = (wordCount' + 199) div 200"

text \<open>\<^verbatim>\<open>parseACPMarkdown\<close>; \<^const>\<open>None\<close> is \<^verbatim>\<open>null\<close>. No statement of the \<^verbatim>\<open>try\<close> block throws,
  so the \<^verbatim>\<open>catch\<close> branch has no counterpart.\<close>

definition parseACPMarkdown :: "string \<Rightarrow> string \<Rightarrow> LocalACP option" where
  "parseACPMarkdown markdown filePath =
     (case str_match False re_folder filePath of
        None \<Rightarrow> None
      | Some folderMatch \<Rightarrow>
          let number' = group_text folderMatch 1;
              folderName' = group_text folderMatch 1 @ ''-'' @ group_text folderMatch 2;
              st = scan scan_init (split_on CHR 0x0A markdown)
          in if s_title st = [] \<or> s_status st = [] \<or> s_track st = [] then None
             else
               let abstract' = extractAbstract markdown;
                   wordCount' = countWords markdown;
                   readingTime' = readingTime_of wordCount';
                   complexity' = estimateComplexity markdown wordCount';
                   tags' = extractTags markdown (s_title st)
               in Some \<lparr>number = number', title = s_title st, authors = s_authors st,
                        status = s_status st, track = s_track st, content = markdown,
                        discussion = s_discussion st, abstract = Some abstract',
                        complexity = Some complexity', tags = Some tags',
                        wordCount = Some wordCount', readingTime = Some readingTime',
                        lastUpdated = None, dependencies = Some (s_dependencies st),
                        replaces = Some (s_replaces st), supersededBy = Some (s_supersededBy st),
                        folderName = Some folderName'\<rparr>)"

section \<open>Query layer\<close>

subsection \<open>searchACPs\<close>

text \<open>The predicate of the \<^verbatim>\<open>filter\<close> call. \<^verbatim>\<open>acp.abstract?.\<close> and \<^verbatim>\<open>acp.tags?.\<close> give
  \<^verbatim>\<open>undefined\<close>, which is falsy, on an absent field.\<close>

definition search_hit :: "string \<Rightarrow> LocalACP \<Rightarrow> bool" where
  "search_hit searchTerm acp =
    (str_includes (number acp) searchTerm \<or>
     str_includes (toLowerCase (title acp)) searchTerm \<or>
     list_ex (\<lambda>author. str_includes (toLowerCase (name author)) searchTerm) (authors acp) \<or>
     str_includes (toLowerCase (status acp)) searchTerm \<or>
     str_includes (toLowerCase (track acp)) searchTerm \<or>
     (case abstract acp of None \<Rightarrow> False
      | Some a \<Rightarrow> str_includes (toLowerCase a) searchTerm) \<or>
     (case tags acp of None \<Rightarrow> False
      | Some ts \<Rightarrow> list_ex (\<lambda>tag. str_includes (toLowerCase tag) searchTerm) ts))"

definition searchACPs :: "LocalACP list \<Rightarrow> string \<Rightarrow> LocalACP list" where
  "searchACPs acps query =
    (if trim query = [] then acps
     else let searchTerm = toLowerCase query in filter (search_hit searchTerm) acps)"

subsection \<open>filterACPs\<close>

text \<open>The \<^verbatim>\<open>filters\<close> argument; the fields carry the prefix \<open>f_\<close> to keep them apart from the
  fields of \<^typ>\<open>LocalACP\<close>.\<close>

record filters =
  f_status :: "string option"
  f_track :: "string option"
  f_complexity :: "string option"
  f_author :: "string option"
  f_hasDiscussion :: "bool option"

text \<open>The value of the \<^verbatim>\<open>complexity\<close> field as the text it is at run time.\<close>

fun complexity_text :: "complexity \<Rightarrow> string" where
  "complexity_text Low = ''Low''"
| "complexity_text Medium = ''Medium''"
| "complexity_text High = ''High''"

definition filter_pass :: "filters \<Rightarrow> LocalACP \<Rightarrow> bool" where
  "filter_pass filters acp =
    (if truthy (f_status filters) \<and> Some (status acp) \<noteq> f_status filters then False
     else if truthy (f_track filters) \<and> Some (track acp) \<noteq> f_track filters then False
     else if truthy (f_complexity filters) \<and>
             map_option complexity_text (complexity acp) \<noteq> f_complexity filters then False
     else if (case f_author filters of None \<Rightarrow> False
              | Some wanted \<Rightarrow> wanted \<noteq> [] \<and>
                  \<not> list_ex (\<lambda>author. str_includes (toLowerCase (name author)) (toLowerCase wanted))
                            (authors acp)) then False
     else if f_hasDiscussion filters \<noteq> None \<and>
             Some (truthy (discussion acp)) \<noteq> f_hasDiscussion filters then False
     else True)"

definition filterACPs :: "LocalACP list \<Rightarrow> filters \<Rightarrow> LocalACP list" where
  "filterACPs acps filters = filter (filter_pass filters) acps"

subsection \<open>sortACPs\<close>

datatype sort_key = ByNumber | ByTitle | ByStatus | ByComplexity

datatype sort_order = Asc | Desc

definition decimal :: "string \<Rightarrow> int" where
  "decimal s = foldl (\<lambda>n c. 10 * n + ((of_char c :: int) - 48)) 0 s"

text \<open>The number of bits of a positive integer.\<close>

function bit_length :: "int \<Rightarrow> nat" where
  "bit_length n = (if n \<le> 0 then 0 else Suc (bit_length (n div 2)))"
  by pat_completeness auto
termination
  by (relation "measure nat") auto

declare bit_length.simps [simp del]

text \<open>The double nearest to an integer, as an integer: a number is a double when its binary
  digits from the first to the last non-zero one are at most 53, so an integer of at most 53
  bits is kept, and a longer one is rounded to 53 bits, to the nearest such number and, half
  way between two, to the one with an even 53-bit part. The result is a finite double when it
  is below \<open>2\<^sup>1\<^sup>0\<^sup>2\<^sup>4\<close>.\<close>

definition nearest_double :: "int \<Rightarrow> int" where
  "nearest_double n =
     (let m = \<bar>n\<bar>; e = bit_length m - 53; q = m div 2 ^ e; r = m mod 2 ^ e;
          q' = (if 2 * r > 2 ^ e \<or> (2 * r = 2 ^ e \<and> odd q) then q + 1 else q)
      in sgn n * (q' * 2 ^ e))"

text \<open>\<^verbatim>\<open>Number(s)\<close> on a run of decimal digits (what the loader extracts from a folder name;
  the empty text gives 0): the double nearest to the value, when that is finite. Elsewhere
  (other numeric syntax, \<^verbatim>\<open>NaN\<close>, \<^verbatim>\<open>Infinity\<close>) the model has no value: \<^const>\<open>None\<close>.\<close>

definition Number :: "string \<Rightarrow> int option" where
  "Number s =
     (if list_all is_digit s \<and> nearest_double (decimal s) < 2 ^ 1024
      then Some (nearest_double (decimal s)) else None)"

fun complexityOrder :: "complexity \<Rightarrow> int" where
  "complexityOrder Low = 1"
| "complexityOrder Medium = 2"
| "complexityOrder High = 3"

text \<open>The body of the comparator. \<^verbatim>\<open>String.prototype.localeCompare\<close> depends on the host's
  locale and is a parameter. \<^verbatim>\<open>a.complexity || 'Low'\<close> replaces an absent tier. The
  difference of two doubles is the double nearest to their difference.\<close>

definition comparison ::
  "(string \<Rightarrow> string \<Rightarrow> int) \<Rightarrow> sort_key \<Rightarrow> LocalACP \<Rightarrow> LocalACP \<Rightarrow> int option" where
  "comparison localeCompare sortBy a b =
     (case sortBy of
        ByNumber \<Rightarrow>
          (case (Number (number a), Number (number b)) of
             (Some x, Some y) \<Rightarrow> Some (nearest_double (x - y))
           | _ \<Rightarrow> None)
      | ByTitle \<Rightarrow> Some (localeCompare (title a) (title b))
      | ByStatus \<Rightarrow> Some (localeCompare (status a) (status b))
      | ByComplexity \<Rightarrow>
          Some (complexityOrder (case complexity a of None \<Rightarrow> Low | Some t \<Rightarrow> t) -
                complexityOrder (case complexity b of None \<Rightarrow> Low | Some t \<Rightarrow> t)))"

definition comparator ::
  "(string \<Rightarrow> string \<Rightarrow> int) \<Rightarrow> sort_key \<Rightarrow> sort_order \<Rightarrow> LocalACP \<Rightarrow> LocalACP \<Rightarrow> int option"
  where
  "comparator localeCompare sortBy order' a b =
     map_option (\<lambda>comparison'. if order' = Desc then - comparison' else comparison')
       (comparison localeCompare sortBy a b)"

text \<open>\<^verbatim>\<open>Array.prototype.sort\<close> is stable, and with a consistent comparator its result is the
  one stable arrangement in comparator order; that arrangement is computed here by insertion
  from the right. The result is \<^const>\<open>None\<close> when a comparison has no value in the model.\<close>

fun insert_sorted :: "('a \<Rightarrow> 'a \<Rightarrow> int option) \<Rightarrow> 'a \<Rightarrow> 'a list \<Rightarrow> 'a list option" where
  "insert_sorted cmp x [] = Some [x]"
| "insert_sorted cmp x (y # ys) =
     (case cmp x y of
        None \<Rightarrow> None
      | Some c \<Rightarrow> if c \<le> 0 then Some (x # y # ys) else map_option ((#) y) (insert_sorted cmp x ys))"

fun array_sort :: "('a \<Rightarrow> 'a \<Rightarrow> int option) \<Rightarrow> 'a list \<Rightarrow> 'a list option" where
  "array_sort cmp [] = Some []"
| "array_sort cmp (x # xs) =
     (case array_sort cmp xs of None \<Rightarrow> None | Some ys \<Rightarrow> insert_sorted cmp x ys)"

definition sortACPs ::
  "(string \<Rightarrow> string \<Rightarrow> int) \<Rightarrow> LocalACP list \<Rightarrow> sort_key \<Rightarrow> sort_order \<Rightarrow> LocalACP list option"
  where
  "sortACPs localeCompare acps sortBy order' =
     array_sort (comparator localeCompare sortBy order') acps"

text \<open>The same function with the arrays held in a store and passed by reference, as at run
  time: \<^verbatim>\<open>[...acps]\<close> allocates a copy, \<^verbatim>\<open>sort\<close> rearranges the copy in place and returns
  its reference.\<close>

type_synonym store = "LocalACP list list"

definition sortACPs_store ::
  "(string \<Rightarrow> string \<Rightarrow> int) \<Rightarrow> store \<Rightarrow> nat \<Rightarrow> sort_key \<Rightarrow> sort_order \<Rightarrow> (nat \<times> store) option"
  where
  "sortACPs_store localeCompare h acps sortBy order' =
     (if acps < length h then
        let copy = length h; h1 = h @ [h ! acps]
        in (case array_sort (comparator localeCompare sortBy order') (h1 ! copy) of
              None \<Rightarrow> None
            | Some sorted' \<Rightarrow> Some (copy, h1[copy := sorted']))
      else None)"

section \<open>Notions used to state the properties\<close>

text \<open>\<open>t\<close> is a substring of \<open>s\<close>.\<close>

definition occurs_in :: "string \<Rightarrow> string \<Rightarrow> bool" where
  "occurs_in t s = (\<exists>u v. s = u @ t @ v)"

text \<open>Case-insensitive substring match of a query against a field.\<close>

definition ci_occurs :: "string \<Rightarrow> string \<Rightarrow> bool" where
  "ci_occurs q field = occurs_in (toLowerCase q) (toLowerCase field)"


text \<open>Empty or white space only.\<close>

definition blank :: "string \<Rightarrow> bool" where
  "blank q = (\<forall>c\<in>set q. is_space c)"

text \<open>The text fields of a record that a search looks at, the id apart: title, each author's
  name, status, track, abstract, each tag.\<close>

definition search_fields :: "LocalACP \<Rightarrow> string list" where
  "search_fields a =
     title a # map name (authors a) @ [status a, track a] @
     (case abstract a of None \<Rightarrow> [] | Some t \<Rightarrow> [t]) @
     (case tags a of None \<Rightarrow> [] | Some ts \<Rightarrow> ts)"

text \<open>The number of keywords of a list that occur in the lower-cased text (presence, not
  frequency).\<close>

definition keyword_hits :: "string list \<Rightarrow> string \<Rightarrow> nat" where
  "keyword_hits keywords text = card {k \<in> set keywords. occurs_in k (toLowerCase text)}"

text \<open>A criteria object imposes no constraint: every text field absent or empty,
  \<^verbatim>\<open>hasDiscussion\<close> absent.\<close>

definition no_criteria :: "filters \<Rightarrow> bool" where
  "no_criteria f =
     (\<not> truthy (f_status f) \<and> \<not> truthy (f_track f) \<and> \<not> truthy (f_complexity f) \<and>
      \<not> truthy (f_author f) \<and> f_hasDiscussion f = None)"

text \<open>The criteria object that carries the criteria of two objects, and the condition under
  which one object can: no field is set to two different values.\<close>

definition pick :: "string option \<Rightarrow> string option \<Rightarrow> string option" where
  "pick x y = (if truthy x then x else y)"

definition both :: "filters \<Rightarrow> filters \<Rightarrow> filters" where
  "both f g =
     \<lparr>f_status = pick (f_status f) (f_status g), f_track = pick (f_track f) (f_track g),
      f_complexity = pick (f_complexity f) (f_complexity g),
      f_author = pick (f_author f) (f_author g),
      f_hasDiscussion =
        (case f_hasDiscussion f of None \<Rightarrow> f_hasDiscussion g | Some b \<Rightarrow> Some b)\<rparr>"

definition agree :: "string option \<Rightarrow> string option \<Rightarrow> bool" where
  "agree x y = (truthy x \<and> truthy y \<longrightarrow> x = y)"

definition compatible :: "filters \<Rightarrow> filters \<Rightarrow> bool" where
  "compatible f g =
     (agree (f_status f) (f_status g) \<and> agree (f_track f) (f_track g) \<and>
      agree (f_complexity f) (f_complexity g) \<and> agree (f_author f) (f_author g) \<and>
      (f_hasDiscussion f = None \<or> f_hasDiscussion g = None \<or>
       f_hasDiscussion f = f_hasDiscussion g))"

text \<open>The tier a record is sorted under, and the record with an absent tier filled in.\<close>

definition tier_of :: "LocalACP \<Rightarrow> complexity" where
  "tier_of a = (case complexity a of None \<Rightarrow> Low | Some t \<Rightarrow> t)"

definition with_tier :: "LocalACP \<Rightarrow> LocalACP" where
  "with_tier a = a\<lparr>complexity := Some (tier_of a)\<rparr>"

text \<open>The numeric id of a record and of another are defined and in order.\<close>

definition id_le :: "LocalACP \<Rightarrow> LocalACP \<Rightarrow> bool" where
  "id_le a b =
     (case (Number (number a), Number (number b)) of
        (Some x, Some y) \<Rightarrow> x \<le> y
      | _ \<Rightarrow> False)"

section \<open>Sample inputs\<close>

definition acp_with :: "string \<Rightarrow> string \<Rightarrow> string \<Rightarrow> string \<Rightarrow> LocalACP" where
  "acp_with n t st tr =
     \<lparr>number = n, title = t, authors = [], status = st, track = tr, content = [],
      discussion = None, abstract = None, complexity = None, tags = None, wordCount = None,
      readingTime = None, lastUpdated = None, dependencies = None, replaces = None,
      supersededBy = None, folderName = None\<rparr>"

definition no_filters :: filters where
  "no_filters =
     \<lparr>f_status = None, f_track = None, f_complexity = None, f_author = None,
      f_hasDiscussion = None\<rparr>"

definition filters_status :: filters where
  "filters_status = no_filters\<lparr>f_status := Some ''Proposed''\<rparr>"

definition filters_track :: filters where
  "filters_track = no_filters\<lparr>f_track := Some ''Standards'', f_complexity := Some []\<rparr>"

definition acps_three :: "LocalACP list" where
  "acps_three =
     [acp_with ''1'' ''a'' ''Proposed'' ''Standards'', acp_with ''2'' ''b'' ''Draft'' ''Standards'',
      acp_with ''3'' ''c'' ''Proposed'' ''Best Practices'']"

text \<open>The numeric id of a record, where it is defined.\<close>

definition numeric :: "LocalACP \<Rightarrow> int" where
  "numeric a = (case Number (number a) of None \<Rightarrow> 0 | Some n \<Rightarrow> n)"

text \<open>A stand-in for \<^verbatim>\<open>localeCompare\<close> where a sort is evaluated; the keys \<^verbatim>\<open>number\<close> and
  \<^verbatim>\<open>complexity\<close> never call it.\<close>

definition no_locale :: "string \<Rightarrow> string \<Rightarrow> int" where
  "no_locale x y = 0"

definition acps_tie :: "LocalACP list" where
  "acps_tie =
     [acp_with ''7'' ''first'' ''Draft'' ''Standards'', acp_with ''7'' ''second'' ''Draft'' ''Standards'']"

text \<open>The key a sort by complexity orders by, in either direction.\<close>

definition tier_key :: "sort_order \<Rightarrow> LocalACP \<Rightarrow> int" where
  "tier_key ord a = (if ord = Desc then - complexityOrder (tier_of a) else complexityOrder (tier_of a))"


definition acps_tiers :: "LocalACP list" where
  "acps_tiers =
     [(acp_with ''1'' ''a'' ''Draft'' ''Standards'')\<lparr>complexity := Some Medium\<rparr>,
      acp_with ''2'' ''b'' ''Draft'' ''Standards'',
      (acp_with ''3'' ''c'' ''Draft'' ''Standards'')\<lparr>complexity := Some Low\<rparr>,
      (acp_with ''4'' ''d'' ''Draft'' ''Standards'')\<lparr>complexity := Some High\<rparr>]"

text \<open>The local variables of \<^verbatim>\<open>parseACPMarkdown\<close> after its scan of a document, and the
  lines of a document.\<close>

definition scan_document :: "string \<Rightarrow> scan_state" where
  "scan_document markdown = scan scan_init (split_on CHR 0x0A markdown)"

definition lines_of :: "string \<Rightarrow> string list" where
  "lines_of markdown = split_on CHR 0x0A markdown"

text \<open>A document from its lines, each ended by a line feed.\<close>

definition document :: "string list \<Rightarrow> string" where
  "document ls = concat (map (\<lambda>l. l @ [CHR 0x0A]) ls)"

definition doc_minimal :: string where
  "doc_minimal =
     document [''| ACP | 118 |'', ''| **Title** | Warp |'', ''| **Status** | Proposed |'',
               ''| **Track** | Standards |'']"

definition doc_no_track :: string where
  "doc_no_track =
     document [''| ACP | 118 |'', ''| **Title** | Warp |'', ''| **Status** | Proposed |'']"

definition path_good :: string where
  "path_good = ''/src/data/acps-source/ACPs/118-warp/README.md''"

definition path_bad :: string where
  "path_bad = ''/src/data/acps-source/ACPs/drafts/README.md''"

text \<open>The character before the position reached by reading \<open>w\<close> from a position with the
  character \<open>p\<close> before it.\<close>

definition last_char :: "char option \<Rightarrow> string \<Rightarrow> char option" where
  "last_char p w = (if w = [] then p else Some (last w))"

text \<open>The text \<open>s\<close> begins with the pattern text \<open>v\<close>, modulo case under flag \<^verbatim>\<open>i\<close>.\<close>

definition begins_with :: "bool \<Rightarrow> string \<Rightarrow> string \<Rightarrow> bool" where
  "begins_with ci s v = (length v \<le> length s \<and> list_all2 (lit_eq ci) v (take (length v) s))"

text \<open>
  The status cell read from the left. At a position a status text begins when a bracketed
  label does (an opening bracket, at least one character other than a closing bracket, a
  closing bracket) or, failing that, a word of the vocabulary as a whole word, in any case;
  the text is the label, or the word as written. The first position where a status text
  begins gives the text.
\<close>

definition label_at :: "string \<Rightarrow> string option" where
  "label_at s =
     (case s of
        [] \<Rightarrow> None
      | x # u \<Rightarrow>
          if x = CHR ''['' \<and> takeWhile (\<lambda>c. c \<noteq> CHR '']'') u \<noteq> [] \<and>
             dropWhile (\<lambda>c. c \<noteq> CHR '']'') u \<noteq> []
          then Some (takeWhile (\<lambda>c. c \<noteq> CHR '']'') u) else None)"

definition whole_word_at :: "char option \<Rightarrow> string \<Rightarrow> string \<Rightarrow> bool" where
  "whole_word_at p s v =
     (begins_with True s v \<and>
      at_word_boundary (last_char p (take (length v) s)) (drop (length v) s))"

definition word_at :: "char option \<Rightarrow> string \<Rightarrow> string option" where
  "word_at p s =
     (if at_word_boundary p s then
        (case filter (whole_word_at p s) status_words of
           [] \<Rightarrow> None
         | v # _ \<Rightarrow> Some (take (length v) s))
      else None)"

definition token_at :: "char option \<Rightarrow> string \<Rightarrow> string option" where
  "token_at p s = (case label_at s of Some l \<Rightarrow> Some l | None \<Rightarrow> word_at p s)"

fun first_token :: "char option \<Rightarrow> string \<Rightarrow> string option" where
  "first_token p [] = token_at p []"
| "first_token p (x # xs) =
     (case token_at p (x # xs) of Some t \<Rightarrow> Some t | None \<Rightarrow> first_token (Some x) xs)"

text \<open>A text with every parenthetical removed: from an opening parenthesis that has a closing
  one after it, up to the first closing one; read from the left.\<close>

function strip_parens :: "string \<Rightarrow> string" where
  "strip_parens [] = []"
| "strip_parens (x # xs) =
     (if x = CHR ''('' \<and> CHR '')'' \<in> set xs
      then strip_parens (tl (dropWhile (\<lambda>c. c \<noteq> CHR '')'') xs))
      else x # strip_parens xs)"
  by pat_completeness auto
termination
proof (relation "measure length")
  fix x :: char and xs :: string
  have "length (tl (dropWhile (\<lambda>c. c \<noteq> CHR '')'') xs)) \<le> length xs"
    using length_dropWhile_le[of "\<lambda>c. c \<noteq> CHR '')''" xs] by simp
  then show "(tl (dropWhile (\<lambda>c. c \<noteq> CHR '')'') xs), x # xs) \<in> measure length" by simp
qed simp_all

definition cell_activated :: string where
  "cell_activated =
     ''Activated ([Discussion](https://github.com/avalanche-foundation/ACPs/discussions/130))''"

text \<open>The line the fallback of \<^verbatim>\<open>extractAbstract\<close> looks for: among the lines after the first
  Track row (a line containing \<^verbatim>\<open>| **Track** |\<close> or \<^verbatim>\<open>|Track|\<close>) and before the next line that
  starts with \<^verbatim>\<open>##\<close>, the first one that is not blank, does not start with \<^verbatim>\<open>|\<close> or
  \<^verbatim>\<open>#\<close> and is not a Track row itself.\<close>

definition track_marker :: "string \<Rightarrow> bool" where
  "track_marker l = (str_includes l ''| **Track** |'' \<or> str_includes l ''|Track|'')"

definition paragraph_line :: "string \<Rightarrow> bool" where
  "paragraph_line l =
     (\<not> track_marker l \<and> \<not> blank l \<and> \<not> startsWith l ''|'' \<and> \<not> startsWith l ''#'')"

definition fallback_line :: "string list \<Rightarrow> string option" where
  "fallback_line ls =
     find paragraph_line
       (takeWhile (\<lambda>l. \<not> startsWith l ''##'') (tl (dropWhile (\<lambda>l. \<not> track_marker l) ls)))"

definition LF :: char where
  "LF = CHR 0x0A"

definition doc_heading_guard :: string where
  "doc_heading_guard = document [''| **Track** | Standards |'', ''## Motivation'', ''Some text'']"

definition doc_hash_in_abstract :: string where
  "doc_hash_in_abstract =
     document [''## Abstract'', [], ''Fixes issue #12 in the node.'', ''## Motivation'']"

definition doc_long_fallback :: string where
  "doc_long_fallback = document [''|Track|Standards|'', ''aaa '' @ replicate 200 CHR ''c'']"

definition doc_wrapped_abstract :: string where
  "doc_wrapped_abstract =
     document [''## Abstract'', [], ''aaa bbb'', replicate 200 CHR ''c'', ''## Motivation'']"

definition doc_plain_abstract :: string where
  "doc_plain_abstract =
     document [''Intro'', ''## Abstract'', [], ''A short abstract.'', [], ''## Motivation'']"

definition doc_paragraph :: string where
  "doc_paragraph = document [''|Track|Standards|'', [], ''# Title'', ''First paragraph.'']"

text \<open>
  The Abstract section as \<^verbatim>\<open>extractAbstract\<close> finds it, read from the left. A section begins
  at a position when there stand the characters \<^verbatim>\<open>##\<close>, then white space or none, then the
  word \<^verbatim>\<open>Abstract\<close> in any case, then white space in which two consecutive line feeds are
  directly followed by a character other than \<^verbatim>\<open>#\<close>. Its text runs from the first character
  after the word that is not white space up to the next \<^verbatim>\<open>#\<close> or the end of the document.
  The first position where a section begins gives the text.
\<close>

fun blank_line_ahead :: "string \<Rightarrow> bool" where
  "blank_line_ahead [] = False"
| "blank_line_ahead (x # xs) =
     ((x = LF \<and> (case xs of y # z # _ \<Rightarrow> y = LF \<and> z \<noteq> CHR ''#'' | _ \<Rightarrow> False)) \<or>
      (is_space x \<and> blank_line_ahead xs))"

definition abstract_at :: "string \<Rightarrow> string option" where
  "abstract_at s =
     (if startsWith s ''##'' then
        let h = dropWhile is_space (drop 2 s)
        in if begins_with True h ''Abstract'' \<and> blank_line_ahead (drop 8 h)
           then Some (takeWhile (\<lambda>c. c \<noteq> CHR ''#'') (dropWhile is_space (drop 8 h)))
           else None
      else None)"

fun abstract_section :: "string \<Rightarrow> string option" where
  "abstract_section [] = None"
| "abstract_section (x # xs) =
     (case abstract_at (x # xs) of Some t \<Rightarrow> Some t | None \<Rightarrow> abstract_section xs)"

definition doc_level3_heading :: string where
  "doc_level3_heading = document [''### Abstract'', [], ''Only a subsection.'']"

definition doc_tight_track :: string where
  "doc_tight_track = document [''|**Track**| Standards |'', ''Some text'']"

section \<open>Auxiliary facts\<close>


lemma startsWith_iff: "startsWith s p \<longleftrightarrow> (\<exists>r. s = p @ r)"
  by (induction s p rule: startsWith.induct) auto

lemma str_includes_iff: "str_includes s t \<longleftrightarrow> (\<exists>u v. s = u @ t @ v)"
proof (induction s)
  case Nil
  then show ?case by auto
next
  case (Cons c cs)
  show ?case
  proof
    assume "str_includes (c # cs) t"
    then consider "startsWith (c # cs) t" | "str_includes cs t" by auto
    then show "\<exists>u v. c # cs = u @ t @ v"
    proof cases
      case 1
      then obtain r where "c # cs = t @ r" by (auto simp: startsWith_iff)
      then have "c # cs = [] @ t @ r" by simp
      then show ?thesis by blast
    next
      case 2
      then obtain u v where "cs = u @ t @ v" using Cons.IH by blast
      then have "c # cs = (c # u) @ t @ v" by simp
      then show ?thesis by blast
    qed
  next
    assume "\<exists>u v. c # cs = u @ t @ v"
    then obtain u v where uv: "c # cs = u @ t @ v" by blast
    show "str_includes (c # cs) t"
    proof (cases u)
      case Nil
      with uv have "startsWith (c # cs) t" by (auto simp: startsWith_iff)
      then show ?thesis by simp
    next
      case (Cons a u')
      with uv have "cs = u' @ t @ v" by simp
      then have "str_includes cs t" using Cons.IH by blast
      then show ?thesis by simp
    qed
  qed
qed

lemma lower_char_idem: "lower_char (lower_char c) = lower_char c"
  unfolding lower_char_def is_upper_def
  by auto

lemma toLowerCase_idem: "toLowerCase (toLowerCase s) = toLowerCase s"
  by (simp add: toLowerCase_def lower_char_idem)

lemma toLowerCase_append: "toLowerCase (u @ v) = toLowerCase u @ toLowerCase v"
  by (simp add: toLowerCase_def)

lemma trim_empty_iff: "trim s = [] \<longleftrightarrow> (\<forall>c\<in>set s. is_space c)"
proof
  assume "trim s = []"
  then have a: "\<forall>x\<in>set (dropWhile is_space s). is_space x"
    by (simp add: trim_def)
  have "dropWhile is_space s = []"
  proof (rule ccontr)
    assume ne: "dropWhile is_space s \<noteq> []"
    then have "\<not> is_space (hd (dropWhile is_space s))" by (rule hd_dropWhile)
    moreover have "hd (dropWhile is_space s) \<in> set (dropWhile is_space s)"
      using ne by simp
    ultimately show False using a by blast
  qed
  then show "\<forall>c\<in>set s. is_space c" by simp
next
  assume "\<forall>c\<in>set s. is_space c"
  then show "trim s = []" by (auto simp: trim_def dest: set_dropWhileD)
qed

lemma insert_sorted_key:
  assumes "\<And>y. y \<in> set ys \<Longrightarrow> cmp x y = Some (k x - k y)"
  shows "insert_sorted cmp x ys = Some (insort_key k x ys)"
  using assms by (induction ys) (auto)

lemma array_sort_key:
  fixes k :: "'a \<Rightarrow> int"
  assumes "\<And>x y. x \<in> set xs \<Longrightarrow> y \<in> set xs \<Longrightarrow> cmp x y = Some (k x - k y)"
  shows "array_sort cmp xs = Some (sort_key k xs)"
  using assms
proof (induction xs)
  case Nil
  then show ?case by simp
next
  case (Cons x xs)
  then have IH: "array_sort cmp xs = Some (sort_key k xs)" by simp
  have "insert_sorted cmp x (sort_key k xs) = Some (insort_key k x (sort_key k xs))"
    by (rule insert_sorted_key) (simp add: Cons.prems)
  with IH show ?case by simp
qed

lemma filter_key_singleton:
  assumes "distinct (map k zs)" "y \<in> set zs"
  shows "filter (\<lambda>x. k y = k x) zs = [y]"
  using assms
proof (induction zs)
  case Nil
  then show ?case by simp
next
  case (Cons z zs)
  show ?case
  proof (cases "y = z")
    case True
    have "filter (\<lambda>x. k z = k x) zs = []"
      using Cons.prems(1) by (auto simp: filter_empty_conv)
    with True show ?thesis by simp
  next
    case False
    with Cons.prems have yin: "y \<in> set zs" and d: "distinct (map k zs)" by auto
    have "k y \<noteq> k z" using Cons.prems(1) yin by (metis distinct.simps(2) image_eqI list.simps(9) set_map)
    with Cons.IH[OF d yin] show ?thesis by simp
  qed
qed

lemma sort_key_neg_rev:
  fixes k :: "'a \<Rightarrow> int"
  assumes "distinct (map k xs)"
  shows "sort_key (\<lambda>a. - k a) xs = rev (sort_key k xs)"
proof (rule properties_for_sort_key)
  show "mset (rev (sort_key k xs)) = mset xs" by simp
  show "sorted (map (\<lambda>a. - k a) (rev (sort_key k xs)))"
  proof -
    have "sorted (map k (sort_key k xs))" by (rule sorted_sort_key)
    then have "sorted (rev (map (\<lambda>a. - k a) (sort_key k xs)))"
      by (simp add: sorted_wrt_rev sorted_map sorted_wrt_map)
    then show ?thesis by (simp add: rev_map)
  qed
  fix y assume "y \<in> set (rev (sort_key k xs))"
  then have yin: "y \<in> set xs" by simp
  have d2: "distinct (map k (rev (sort_key k xs)))"
    using assms by (metis distinct_map distinct_rev set_rev set_sort distinct_sort) 
  have "[x\<leftarrow>rev (sort_key k xs) . k y = k x] = [y]"
    by (rule filter_key_singleton[OF d2]) (simp add: yin)
  moreover have "[x\<leftarrow>xs . k y = k x] = [y]"
    by (rule filter_key_singleton[OF assms yin])
  ultimately show "[x\<leftarrow>rev (sort_key k xs) . - k y = - k x] = [x\<leftarrow>xs . - k y = - k x]"
    by simp
qed

lemma sort_key_neg_keys:
  fixes k :: "'a \<Rightarrow> int"
  shows "map k (sort_key (\<lambda>a. - k a) xs) = rev (map k (sort_key k xs))"
proof -
  have s1: "sorted (map (\<lambda>a. - k a) (sort_key (\<lambda>a. - k a) xs))" by (rule sorted_sort_key)
  have "map k (sort_key (\<lambda>a. - k a) xs) = map uminus (map (\<lambda>a. - k a) (sort_key (\<lambda>a. - k a) xs))"
    by (simp add: comp_def)
  have A: "sorted (rev (map k (sort_key (\<lambda>a. - k a) xs)))"
    using s1 by (simp add: sorted_wrt_rev sorted_map sorted_wrt_map)
  have B: "sorted (map k (sort_key k xs))" by (rule sorted_sort_key)
  have "mset (rev (map k (sort_key (\<lambda>a. - k a) xs))) = mset (map k (sort_key k xs))"
    by simp
  with A B have "rev (map k (sort_key (\<lambda>a. - k a) xs)) = map k (sort_key k xs)"
    using properties_for_sort by metis
  then show ?thesis by (metis rev_rev_ident)
qed

subsection \<open>Filtering\<close>

lemma filter_pass_conj:
  "filter_pass f a \<longleftrightarrow>
     \<not> (truthy (f_status f) \<and> Some (status a) \<noteq> f_status f) \<and>
     \<not> (truthy (f_track f) \<and> Some (track a) \<noteq> f_track f) \<and>
     \<not> (truthy (f_complexity f) \<and>
          map_option complexity_text (complexity a) \<noteq> f_complexity f) \<and>
     \<not> (case f_author f of None \<Rightarrow> False
        | Some wanted \<Rightarrow> wanted \<noteq> [] \<and>
            \<not> list_ex (\<lambda>author. str_includes (toLowerCase (name author)) (toLowerCase wanted))
                      (authors a)) \<and>
     \<not> (f_hasDiscussion f \<noteq> None \<and> Some (truthy (discussion a)) \<noteq> f_hasDiscussion f)"
proof -
  have p: "\<And>A B C D E. (if A then False else if B then False else if C then False
      else if D then False else if E then False else True) = (\<not> A \<and> \<not> B \<and> \<not> C \<and> \<not> D \<and> \<not> E)"
    by simp
  show ?thesis unfolding filter_pass_def by (rule p)
qed

lemma author_criterion:
  "\<not> (case x of None \<Rightarrow> False | Some wanted \<Rightarrow> wanted \<noteq> [] \<and> \<not> list_ex (P wanted) xs) \<longleftrightarrow>
   (truthy x \<longrightarrow> (\<exists>author\<in>set xs. P (case x of None \<Rightarrow> [] | Some w \<Rightarrow> w) author))"
  by (cases x) (auto simp: truthy_def list_ex_iff)

lemma filter_pass_iff:
  "filter_pass f a \<longleftrightarrow>
     (truthy (f_status f) \<longrightarrow> f_status f = Some (status a)) \<and>
     (truthy (f_track f) \<longrightarrow> f_track f = Some (track a)) \<and>
     (truthy (f_complexity f) \<longrightarrow> f_complexity f = map_option complexity_text (complexity a)) \<and>
     (truthy (f_author f) \<longrightarrow>
        (\<exists>author\<in>set (authors a). str_includes (toLowerCase (name author))
            (toLowerCase (case f_author f of None \<Rightarrow> [] | Some w \<Rightarrow> w)))) \<and>
     (f_hasDiscussion f \<noteq> None \<longrightarrow> f_hasDiscussion f = Some (truthy (discussion a)))"
proof -
  have e: "\<And>A (x::'b) y. \<not> (A \<and> x \<noteq> y) \<longleftrightarrow> (A \<longrightarrow> y = x)" by blast
  show ?thesis
    unfolding filter_pass_conj
      author_criterion[where x = "f_author f" and P = "\<lambda>w author. str_includes (toLowerCase (name author)) (toLowerCase w)"]
      e ..
qed

lemma filter_pass_no_criteria: "no_criteria f \<Longrightarrow> filter_pass f a"
  by (simp add: filter_pass_iff no_criteria_def)

lemma truthy_pick: "truthy (pick x y) \<longleftrightarrow> truthy x \<or> truthy y"
  by (simp add: pick_def)

lemma filter_pass_both:
  assumes "compatible f g"
  shows "filter_pass (both f g) a \<longleftrightarrow> filter_pass f a \<and> filter_pass g a"
proof -
  have st: "\<And>x y v. agree x y \<Longrightarrow>
      (truthy (pick x y) \<longrightarrow> pick x y = v) \<longleftrightarrow> (truthy x \<longrightarrow> x = v) \<and> (truthy y \<longrightarrow> y = v)"
    by (auto simp: pick_def agree_def)
  have au: "\<And>x y P. agree x y \<Longrightarrow>
      (truthy (pick x y) \<longrightarrow> P (case pick x y of None \<Rightarrow> [] | Some w \<Rightarrow> w)) \<longleftrightarrow>
      (truthy x \<longrightarrow> P (case x of None \<Rightarrow> [] | Some w \<Rightarrow> w)) \<and>
      (truthy y \<longrightarrow> P (case y of None \<Rightarrow> [] | Some w \<Rightarrow> w))"
    by (auto simp: pick_def agree_def)
  have hd: "(f_hasDiscussion (both f g) \<noteq> None \<longrightarrow>
              f_hasDiscussion (both f g) = Some (truthy (discussion a))) \<longleftrightarrow>
            (f_hasDiscussion f \<noteq> None \<longrightarrow> f_hasDiscussion f = Some (truthy (discussion a))) \<and>
            (f_hasDiscussion g \<noteq> None \<longrightarrow> f_hasDiscussion g = Some (truthy (discussion a)))"
    using assms by (auto simp: both_def compatible_def split: option.splits)
  have s1: "f_status (both f g) = pick (f_status f) (f_status g)"
    and s2: "f_track (both f g) = pick (f_track f) (f_track g)"
    and s3: "f_complexity (both f g) = pick (f_complexity f) (f_complexity g)"
    and s4: "f_author (both f g) = pick (f_author f) (f_author g)"
    by (simp_all add: both_def)
  have a1: "agree (f_status f) (f_status g)" and a2: "agree (f_track f) (f_track g)"
    and a3: "agree (f_complexity f) (f_complexity g)" and a4: "agree (f_author f) (f_author g)"
    using assms by (simp_all add: compatible_def)
  show ?thesis
    unfolding filter_pass_iff[of "both f g"] filter_pass_iff[of f] filter_pass_iff[of g]
      s1 s2 s3 s4 st[OF a1] st[OF a2] st[OF a3]
      au[OF a4, where P = "\<lambda>w. \<exists>author\<in>set (authors a). str_includes (toLowerCase (name author)) (toLowerCase w)"]
      hd
    by blast
qed

section \<open>filterACPs: no criteria, and two criteria together\<close>

text \<open>
  Claim C6. With every criteria field absent or empty \<^verbatim>\<open>filterACPs\<close> returns the input
  unchanged. The criteria are independent predicates joined by "and": for two criteria objects
  that do not set a field to two different values, filtering by the object that carries the
  criteria of both gives the records of the input, in input order, that are in the result
  of filtering by each alone; it is also filtering by one and then by the other.
\<close>

theorem filterACPs_criteria:
  "(no_criteria f \<longrightarrow> filterACPs acps f = acps) \<and>
   (compatible f g \<longrightarrow>
      filterACPs acps (both f g) =
        [a \<leftarrow> acps. a \<in> set (filterACPs acps f) \<and> a \<in> set (filterACPs acps g)] \<and>
      filterACPs acps (both f g) = filterACPs (filterACPs acps f) g)"
proof (intro conjI impI)
  assume "no_criteria f"
  then show "filterACPs acps f = acps"
    by (simp add: filterACPs_def filter_pass_no_criteria)
next
  assume c: "compatible f g"
  show "filterACPs acps (both f g) =
        [a \<leftarrow> acps. a \<in> set (filterACPs acps f) \<and> a \<in> set (filterACPs acps g)]"
    unfolding filterACPs_def by (rule filter_cong) (auto simp: filter_pass_both[OF c])
  show "filterACPs acps (both f g) = filterACPs (filterACPs acps f) g"
    unfolding filterACPs_def by (auto simp: filter_pass_both[OF c] intro: filter_cong)
qed

theorem filterACPs_criteria_witness:
  "no_criteria (no_filters\<lparr>f_track := Some []\<rparr>) \<and>
   filterACPs acps_three (no_filters\<lparr>f_track := Some []\<rparr>) = acps_three \<and>
   compatible filters_status filters_track \<and>
   filterACPs acps_three (both filters_status filters_track) = [acp_with ''1'' ''a'' ''Proposed'' ''Standards'']"
proof -
  have n: "no_criteria (no_filters\<lparr>f_track := Some []\<rparr>)"
    by (simp add: no_criteria_def no_filters_def truthy_def)
  have c: "compatible filters_status filters_track"
    by (simp add: compatible_def filters_status_def filters_track_def no_filters_def agree_def truthy_def)
  have e: "[a \<leftarrow> acps_three. a \<in> set (filterACPs acps_three filters_status) \<and> a \<in> set (filterACPs acps_three filters_track)] = [acp_with ''1'' ''a'' ''Proposed'' ''Standards'']"
    by (simp add: acps_three_def filters_status_def filters_track_def no_filters_def filterACPs_def filter_pass_def truthy_def acp_with_def)
  show ?thesis
    using filterACPs_criteria[of "no_filters\<lparr>f_track := Some []\<rparr>" acps_three filters_track]
      filterACPs_criteria[of filters_status acps_three filters_track] n c e by simp
qed

subsection \<open>Searching\<close>

lemma str_includes_occurs: "str_includes s t \<longleftrightarrow> occurs_in t s"
  by (simp add: str_includes_iff occurs_in_def)

lemma blank_trim: "trim q = [] \<longleftrightarrow> blank q"
  by (simp add: trim_empty_iff blank_def)

lemma search_hit_iff:
  "search_hit t a \<longleftrightarrow>
     occurs_in t (number a) \<or> (\<exists>f\<in>set (search_fields a). occurs_in t (toLowerCase f))"
proof -
  have ab: "(case abstract a of None \<Rightarrow> False | Some x \<Rightarrow> str_includes (toLowerCase x) t) \<longleftrightarrow>
        (\<exists>f\<in>set (case abstract a of None \<Rightarrow> [] | Some x \<Rightarrow> [x]). occurs_in t (toLowerCase f))"
    by (cases "abstract a") (simp_all add: str_includes_occurs)
  have tg: "(case tags a of None \<Rightarrow> False
             | Some ts \<Rightarrow> list_ex (\<lambda>tag. str_includes (toLowerCase tag) t) ts) \<longleftrightarrow>
        (\<exists>f\<in>set (case tags a of None \<Rightarrow> [] | Some ts \<Rightarrow> ts). occurs_in t (toLowerCase f))"
    by (cases "tags a") (simp_all add: str_includes_occurs list_ex_iff)
  have au: "list_ex (\<lambda>author. str_includes (toLowerCase (name author)) t) (authors a) \<longleftrightarrow>
        (\<exists>f\<in>set (map name (authors a)). occurs_in t (toLowerCase f))"
    by (simp add: str_includes_occurs list_ex_iff)
  show ?thesis
    unfolding search_hit_def ab tg au search_fields_def
    by (simp only: str_includes_occurs set_append set_simps bex_Un) blast
qed

lemma search_hit_fun:
  "search_hit t =
     (\<lambda>a. occurs_in t (number a) \<or> (\<exists>f\<in>set (search_fields a). occurs_in t (toLowerCase f)))"
  by (rule ext) (rule search_hit_iff)

lemma occurs_in_lower:
  assumes "occurs_in (toLowerCase q) s"
  shows "occurs_in (toLowerCase q) (toLowerCase s)"
proof -
  from assms obtain u v where "s = u @ toLowerCase q @ v" by (auto simp: occurs_in_def)
  then have "toLowerCase s = toLowerCase u @ toLowerCase q @ toLowerCase v"
    by (simp add: toLowerCase_append toLowerCase_idem)
  then show ?thesis unfolding occurs_in_def by blast
qed

section \<open>searchACPs: which records a query returns\<close>

text \<open>
  Claim C7, as amended. For every collection and every query, \<^verbatim>\<open>searchACPs\<close> returns the input
  unchanged when the query is empty or white space only; otherwise it returns exactly the
  records of the input, in their order, for which the lower-cased query is a substring of the
  id as stored (the id is not lower-cased) or, compared case-insensitively, of the title, an
  author's name, the status, the track, the abstract or a tag. Where no id has an upper-case
  letter (every id of digits) this is the case-insensitive match on the id as well.
\<close>

theorem searchACPs_characterised:
  "searchACPs acps q =
     (if blank q then acps
      else [a \<leftarrow> acps. occurs_in (toLowerCase q) (number a) \<or>
                       (\<exists>f\<in>set (search_fields a). ci_occurs q f)]) \<and>
   ((\<forall>a\<in>set acps. toLowerCase (number a) = number a) \<longrightarrow>
      searchACPs acps q =
        (if blank q then acps
         else [a \<leftarrow> acps. \<exists>f\<in>set (number a # search_fields a). ci_occurs q f]))"
proof (intro conjI impI)
  show 1: "searchACPs acps q =
     (if blank q then acps
      else [a \<leftarrow> acps. occurs_in (toLowerCase q) (number a) \<or>
                       (\<exists>f\<in>set (search_fields a). ci_occurs q f)])"
    by (simp add: searchACPs_def Let_def blank_trim search_hit_fun ci_occurs_def)
  assume ids: "\<forall>a\<in>set acps. toLowerCase (number a) = number a"
  have "[a \<leftarrow> acps. occurs_in (toLowerCase q) (number a) \<or>
                       (\<exists>f\<in>set (search_fields a). ci_occurs q f)] =
        [a \<leftarrow> acps. \<exists>f\<in>set (number a # search_fields a). ci_occurs q f]"
    by (rule filter_cong) (auto simp: ci_occurs_def ids)
  with 1 show "searchACPs acps q =
        (if blank q then acps
         else [a \<leftarrow> acps. \<exists>f\<in>set (number a # search_fields a). ci_occurs q f])"
    by simp
qed

section \<open>searchACPs: the query is not trimmed\<close>

text \<open>
  Claim C8. The query is lower-cased and never trimmed: for a query that is not blank, with
  whatever white space around it, a record is returned exactly when the whole lower-cased
  query, padding included, is a substring of one of its searched fields, so a returned record
  has a field that contains the padded text (case-insensitively). The record with status
  \<^verbatim>\<open>Proposed\<close> is found by the query \<^verbatim>\<open>Proposed\<close> and not by the same word between spaces.
\<close>

theorem searchACPs_untrimmed_query:
  "(\<not> blank q \<longrightarrow>
      (a \<in> set (searchACPs acps q) \<longleftrightarrow>
         a \<in> set acps \<and>
         (occurs_in (toLowerCase q) (number a) \<or>
          (\<exists>f\<in>set (search_fields a). occurs_in (toLowerCase q) (toLowerCase f))))) \<and>
   (\<not> blank q \<longrightarrow> a \<in> set (searchACPs acps q) \<longrightarrow>
      (\<exists>f\<in>set (number a # search_fields a). occurs_in (toLowerCase q) (toLowerCase f))) \<and>
   searchACPs [acp_with ''7'' ''Fees'' ''Proposed'' ''Standards''] ''Proposed'' =
     [acp_with ''7'' ''Fees'' ''Proposed'' ''Standards''] \<and>
   searchACPs [acp_with ''7'' ''Fees'' ''Proposed'' ''Standards''] '' Proposed '' = []"
proof (intro conjI impI)
  assume nb: "\<not> blank q"
  show m: "a \<in> set (searchACPs acps q) \<longleftrightarrow>
         a \<in> set acps \<and>
         (occurs_in (toLowerCase q) (number a) \<or>
          (\<exists>f\<in>set (search_fields a). occurs_in (toLowerCase q) (toLowerCase f)))"
    using nb by (simp add: searchACPs_def Let_def blank_trim search_hit_iff)
  assume "a \<in> set (searchACPs acps q)"
  with m have "occurs_in (toLowerCase q) (number a) \<or>
          (\<exists>f\<in>set (search_fields a). occurs_in (toLowerCase q) (toLowerCase f))" by simp
  then show "\<exists>f\<in>set (number a # search_fields a). occurs_in (toLowerCase q) (toLowerCase f)"
    using occurs_in_lower by auto
next
  show "searchACPs [acp_with ''7'' ''Fees'' ''Proposed'' ''Standards''] ''Proposed'' =
     [acp_with ''7'' ''Fees'' ''Proposed'' ''Standards'']"
    by code_simp
  show "searchACPs [acp_with ''7'' ''Fees'' ''Proposed'' ''Standards''] '' Proposed '' = []"
    by code_simp
qed


theorem searchACPs_characterised_witness:
  "searchACPs acps_three ''   '' = acps_three \<and>
   searchACPs acps_three ''STAND'' =
     [acp_with ''1'' ''a'' ''Proposed'' ''Standards'', acp_with ''2'' ''b'' ''Draft'' ''Standards''] \<and>
   [a \<leftarrow> acps_three. \<exists>f\<in>set (number a # search_fields a). ci_occurs ''STAND'' f] =
     [acp_with ''1'' ''a'' ''Proposed'' ''Standards'', acp_with ''2'' ''b'' ''Draft'' ''Standards'']"
proof -
  have ids: "\<forall>a\<in>set acps_three. toLowerCase (number a) = number a"
    by (simp add: acps_three_def acp_with_def toLowerCase_def lower_char_def is_upper_def)
  have b: "\<not> blank ''STAND''" by (simp add: blank_def is_space_def)
  have e1: "searchACPs acps_three ''   '' = acps_three" by code_simp
  have e2: "searchACPs acps_three ''STAND'' =
     [acp_with ''1'' ''a'' ''Proposed'' ''Standards'', acp_with ''2'' ''b'' ''Draft'' ''Standards'']"
    by code_simp
  have t: "searchACPs acps_three ''STAND'' =
     (if blank ''STAND'' then acps_three
      else [a \<leftarrow> acps_three. \<exists>f\<in>set (number a # search_fields a). ci_occurs ''STAND'' f])"
    using searchACPs_characterised[of acps_three "''STAND''"] ids by blast
  have e3: "[a \<leftarrow> acps_three. \<exists>f\<in>set (number a # search_fields a). ci_occurs ''STAND'' f] =
     searchACPs acps_three ''STAND''"
    unfolding t by (simp only: b if_False)
  show ?thesis
    unfolding e3 using e1 e2 by (intro conjI)
qed

text \<open>
  The claim as stated fails on an id with an upper-case letter: the query is lower-cased, the
  id is not, so the record with the id \<^verbatim>\<open>A1\<close> is found neither by \<^verbatim>\<open>a1\<close> nor by \<^verbatim>\<open>A1\<close>, though
  each is a substring of the id modulo case.
\<close>

theorem searchACPs_id_counterexample:
  "searchACPs [acp_with ''A1'' ''Fees'' ''Draft'' ''Standards''] ''a1'' = [] \<and>
   searchACPs [acp_with ''A1'' ''Fees'' ''Draft'' ''Standards''] ''A1'' = [] \<and>
   ci_occurs ''a1'' (number (acp_with ''A1'' ''Fees'' ''Draft'' ''Standards'')) \<and>
   ci_occurs ''A1'' (number (acp_with ''A1'' ''Fees'' ''Draft'' ''Standards''))"
proof (intro conjI)
  show "searchACPs [acp_with ''A1'' ''Fees'' ''Draft'' ''Standards''] ''a1'' = []" by code_simp
  show "searchACPs [acp_with ''A1'' ''Fees'' ''Draft'' ''Standards''] ''A1'' = []" by code_simp
  have "str_includes (toLowerCase ''A1'') (toLowerCase ''a1'')"
    "str_includes (toLowerCase ''A1'') (toLowerCase ''A1'')"
    by (code_simp, code_simp)
  then show "ci_occurs ''a1'' (number (acp_with ''A1'' ''Fees'' ''Draft'' ''Standards''))"
    "ci_occurs ''A1'' (number (acp_with ''A1'' ''Fees'' ''Draft'' ''Standards''))"
    by (simp_all add: ci_occurs_def str_includes_occurs acp_with_def)
qed

theorem searchACPs_untrimmed_query_witness:
  "\<not> blank '' Standards'' \<and>
   acp_with ''3'' ''c'' ''Proposed'' ''Best Practices'' \<notin> set (searchACPs acps_three '' Standards'') \<and>
   \<not> (occurs_in (toLowerCase '' Standards'') (number (acp_with ''3'' ''c'' ''Proposed'' ''Best Practices'')) \<or>
      (\<exists>f\<in>set (search_fields (acp_with ''3'' ''c'' ''Proposed'' ''Best Practices'')).
          occurs_in (toLowerCase '' Standards'') (toLowerCase f)))"
proof -
  have b: "\<not> blank '' Standards''" by (simp add: blank_def is_space_def)
  have n: "acp_with ''3'' ''c'' ''Proposed'' ''Best Practices'' \<notin> set (searchACPs acps_three '' Standards'')"
    by code_simp
  have m: "acp_with ''3'' ''c'' ''Proposed'' ''Best Practices'' \<in> set acps_three"
    by (simp add: acps_three_def)
  show ?thesis
    using searchACPs_untrimmed_query[of "'' Standards''" "acp_with ''3'' ''c'' ''Proposed'' ''Best Practices''" acps_three]
      b n m by blast
qed

subsection \<open>Keyword counts\<close>

lemma length_filter_card:
  assumes "distinct xs"
  shows "length (filter P xs) = card {x \<in> set xs. P x}"
proof -
  have "{x \<in> set xs. P x} = {x. P x} \<inter> set xs" by blast
  then show ?thesis using distinct_length_filter[OF assms, of P] by simp
qed

lemma distinct_highComplexityKeywords: "distinct highComplexityKeywords"
  by (simp add: highComplexityKeywords_def)

lemma distinct_mediumComplexityKeywords: "distinct mediumComplexityKeywords"
  by (simp add: mediumComplexityKeywords_def)

lemma keyword_count:
  assumes "distinct kws"
  shows "length (filter (\<lambda>keyword. str_includes (toLowerCase text) keyword) kws) =
         keyword_hits kws text"
  unfolding keyword_hits_def using length_filter_card[OF assms] 
  by (simp add: str_includes_occurs)

section \<open>estimateComplexity: the three tiers\<close>

text \<open>
  Claim C2. For every text and word count, the tier is High exactly when the word count
  exceeds 4000 or at least three of the high-complexity keywords occur in the lower-cased
  text; otherwise Medium exactly when the word count exceeds 2000 or at least one
  high-complexity keyword or at least three medium-complexity keywords occur; otherwise Low.
  A keyword counts once however often it occurs.
\<close>

theorem estimateComplexity_tiers:
  "estimateComplexity markdown wc =
     (if wc > 4000 \<or> keyword_hits highComplexityKeywords markdown \<ge> 3 then High
      else if wc > 2000 \<or> keyword_hits highComplexityKeywords markdown \<ge> 1 \<or>
              keyword_hits mediumComplexityKeywords markdown \<ge> 3 then Medium
      else Low)"
  unfolding estimateComplexity_def Let_def
    keyword_count[OF distinct_highComplexityKeywords]
    keyword_count[OF distinct_mediumComplexityKeywords]
  by (rule refl)

theorem estimateComplexity_tiers_witness:
  "estimateComplexity ''The protocol. The PROTOCOL. A node in a network block.'' 10 = Medium \<and>
   keyword_hits highComplexityKeywords ''The protocol. The PROTOCOL. A node in a network block.'' = 1"
proof -
  have e: "estimateComplexity ''The protocol. The PROTOCOL. A node in a network block.'' 10 = Medium"
    by code_simp
  have k: "length (filter (\<lambda>keyword. str_includes (toLowerCase ''The protocol. The PROTOCOL. A node in a network block.'') keyword) highComplexityKeywords) = 1"
    by code_simp
  show ?thesis
    using estimateComplexity_tiers[of "''The protocol. The PROTOCOL. A node in a network block.''" 10]
      e k keyword_count[OF distinct_highComplexityKeywords, of "''The protocol. The PROTOCOL. A node in a network block.''"]
    by simp
qed

subsection \<open>Sorting\<close>

lemma bit_length_lower: "0 < m \<Longrightarrow> 2 ^ (bit_length m - 1) \<le> m"
proof (induction m rule: bit_length.induct)
  case (1 n)
  show ?case
  proof (cases "n div 2 \<le> 0")
    case True
    then have "bit_length (n div 2) = 0" by (simp add: bit_length.simps)
    then have "bit_length n = 1" using 1(2) by (simp add: bit_length.simps[of n])
    then show ?thesis using 1(2) by simp
  next
    case False
    then have pos: "0 < n div 2" by simp
    have IH: "2 ^ (bit_length (n div 2) - 1) \<le> n div 2"
      using 1(1) 1(2) pos by simp
    have b: "bit_length (n div 2) = Suc (bit_length (n div 2) - 1)"
      using pos by (simp add: bit_length.simps[of "n div 2"])
    have "bit_length n - 1 = bit_length (n div 2)" using 1(2) by (simp add: bit_length.simps[of n])
    then have "(2::int) ^ (bit_length n - 1) = 2 * 2 ^ (bit_length (n div 2) - 1)"
      using b by (metis power_Suc)
    also have "\<dots> \<le> 2 * (n div 2)" using IH by simp
    also have "\<dots> \<le> n" by simp
    finally show ?thesis .
  qed
qed

lemma nearest_double_pos:
  assumes "0 < n"
  shows "0 < nearest_double n"
proof -
  let ?e = "bit_length n - 53"
  have "(2::int) ^ ?e \<le> 2 ^ (bit_length n - 1)" by (rule power_increasing) simp_all
  also have "\<dots> \<le> n" using assms by (rule bit_length_lower)
  finally have le: "(2::int) ^ ?e \<le> n" .
  have q: "0 < n div 2 ^ ?e" using le by (simp add: pos_imp_zdiv_pos_iff)
  have "0 < (if 2 * (n mod 2 ^ ?e) > 2 ^ ?e \<or> (2 * (n mod 2 ^ ?e) = 2 ^ ?e \<and> odd (n div 2 ^ ?e))
             then n div 2 ^ ?e + 1 else n div 2 ^ ?e) * 2 ^ ?e"
    using q by simp
  then show ?thesis using assms by (simp add: nearest_double_def Let_def)
qed

lemma nearest_double_neg: "nearest_double (- n) = - nearest_double n"
  by (simp add: nearest_double_def Let_def)

lemma nearest_double_sign:
  "nearest_double n \<le> 0 \<longleftrightarrow> n \<le> 0" "0 \<le> nearest_double n \<longleftrightarrow> 0 \<le> n"
proof -
  consider "0 < n" | "n = 0" | "0 < - n" by linarith
  then have "(nearest_double n \<le> 0 \<longleftrightarrow> n \<le> 0) \<and> (0 \<le> nearest_double n \<longleftrightarrow> 0 \<le> n)"
  proof cases
    case 1
    then show ?thesis using nearest_double_pos[of n] by simp
  next
    case 2
    then show ?thesis by (simp add: nearest_double_def Let_def)
  next
    case 3
    then show ?thesis using nearest_double_pos[of "- n"] by (simp add: nearest_double_neg)
  qed
  then show "nearest_double n \<le> 0 \<longleftrightarrow> n \<le> 0" "0 \<le> nearest_double n \<longleftrightarrow> 0 \<le> n" by simp_all
qed

lemma insert_sorted_sign:
  fixes k :: "'a \<Rightarrow> int"
  assumes "\<And>y. y \<in> set ys \<Longrightarrow> \<exists>c. cmp x y = Some c \<and> (c \<le> 0 \<longleftrightarrow> k x \<le> k y)"
  shows "insert_sorted cmp x ys = Some (insort_key k x ys)"
  using assms
proof (induction ys)
  case Nil
  then show ?case by simp
next
  case (Cons y ys)
  from Cons.prems[of y] obtain c where c: "cmp x y = Some c" "c \<le> 0 \<longleftrightarrow> k x \<le> k y" by auto
  have "insert_sorted cmp x ys = Some (insort_key k x ys)"
    by (rule Cons.IH) (simp add: Cons.prems)
  then show ?case using c by simp
qed

lemma array_sort_sign:
  fixes k :: "'a \<Rightarrow> int"
  assumes "\<And>x y. x \<in> set xs \<Longrightarrow> y \<in> set xs \<Longrightarrow>
             \<exists>c. cmp x y = Some c \<and> (c \<le> 0 \<longleftrightarrow> k x \<le> k y)"
  shows "array_sort cmp xs = Some (sort_key k xs)"
  using assms
proof (induction xs)
  case Nil
  then show ?case by simp
next
  case (Cons x xs)
  then have IH: "array_sort cmp xs = Some (sort_key k xs)" by simp
  have "insert_sorted cmp x (sort_key k xs) = Some (insort_key k x (sort_key k xs))"
    by (rule insert_sorted_sign) (simp add: Cons.prems)
  with IH show ?case by simp
qed

lemma comparator_number:
  assumes "Number (number a) \<noteq> None" "Number (number b) \<noteq> None"
  shows "comparator lc ByNumber Asc a b = Some (nearest_double (numeric a - numeric b))"
    and "comparator lc ByNumber Desc a b = Some (- nearest_double (numeric a - numeric b))"
  using assms by (auto simp: comparator_def comparison_def numeric_def)

lemma sortACPs_number_asc:
  assumes "\<forall>a\<in>set acps. Number (number a) \<noteq> None"
  shows "sortACPs lc acps ByNumber Asc = Some (sort_key numeric acps)"
  unfolding sortACPs_def
proof (rule array_sort_sign)
  fix x y assume "x \<in> set acps" "y \<in> set acps"
  then have "comparator lc ByNumber Asc x y = Some (nearest_double (numeric x - numeric y))"
    using assms by (simp add: comparator_number)
  moreover have "nearest_double (numeric x - numeric y) \<le> 0 \<longleftrightarrow> numeric x \<le> numeric y"
    by (simp add: nearest_double_sign)
  ultimately show "\<exists>c. comparator lc ByNumber Asc x y = Some c \<and>
      (c \<le> 0 \<longleftrightarrow> numeric x \<le> numeric y)" by simp
qed

lemma sortACPs_number_desc:
  assumes "\<forall>a\<in>set acps. Number (number a) \<noteq> None"
  shows "sortACPs lc acps ByNumber Desc = Some (sort_key (\<lambda>a. - numeric a) acps)"
  unfolding sortACPs_def
proof (rule array_sort_sign)
  fix x y assume "x \<in> set acps" "y \<in> set acps"
  then have "comparator lc ByNumber Desc x y = Some (- nearest_double (numeric x - numeric y))"
    using assms by (simp add: comparator_number)
  moreover have "- nearest_double (numeric x - numeric y) \<le> 0 \<longleftrightarrow> - numeric x \<le> - numeric y"
    by (simp add: nearest_double_sign)
  ultimately show "\<exists>c. comparator lc ByNumber Desc x y = Some c \<and>
      (c \<le> 0 \<longleftrightarrow> - numeric x \<le> - numeric y)" by simp
qed

lemma id_le_numeric:
  assumes "Number (number a) \<noteq> None" "Number (number b) \<noteq> None"
  shows "id_le a b \<longleftrightarrow> numeric a \<le> numeric b"
  using assms by (auto simp: id_le_def numeric_def)

lemma sorted_wrt_id_le:
  assumes "\<forall>a\<in>set xs. Number (number a) \<noteq> None"
  shows "sorted_wrt id_le xs \<longleftrightarrow> sorted (map numeric xs)"
  using assms by (induction xs) (auto simp: id_le_numeric)

lemma sorted_neg_rev:
  fixes k :: "'a \<Rightarrow> int"
  shows "sorted (map (\<lambda>a. - k a) xs) \<longleftrightarrow> sorted (map k (rev xs))"
  by (simp add: rev_map sorted_wrt_rev sorted_map sorted_wrt_map)

lemma same_id_numeric:
  assumes "\<forall>a\<in>set xs. Number (number a) \<noteq> None"
  shows "[a \<leftarrow> xs. Number (number a) = n] =
         (case n of None \<Rightarrow> [] | Some v \<Rightarrow> [a \<leftarrow> xs. numeric a = v])"
proof (cases n)
  case None
  then show ?thesis using assms by (simp add: filter_empty_conv)
next
  case (Some v)
  have "[a \<leftarrow> xs. Number (number a) = Some v] = [a \<leftarrow> xs. numeric a = v]"
    by (rule filter_cong) (use assms in \<open>auto simp: numeric_def\<close>)
  then show ?thesis using Some by simp
qed

lemma sortACPs_store_eq:
  assumes "r < length h"
  shows "sortACPs_store lc h r key ord =
         map_option (\<lambda>ys. (length h, h @ [ys])) (sortACPs lc (h ! r) key ord)"
  using assms by (simp add: sortACPs_store_def sortACPs_def Let_def nth_append split: option.splits)

section \<open>sortACPs by number\<close>

text \<open>
  Claim C5, as amended. The numeric id of a record is the number that \<^verbatim>\<open>Number\<close> reads from
  its id. For every collection whose ids are numeric (runs of decimal digits that \<^verbatim>\<open>Number\<close>
  reads as a finite number), sorting by number succeeds in both directions and rearranges the
  records; the ascending output is non-decreasing and the descending output non-increasing
  in numeric id; in both directions the records with one and the same numeric id stand in
  the output in the order in which they stand in the input; the numeric ids of the
  descending output are those of the ascending output in reverse; the descending output is
  the exact reverse of the ascending output when no two records have the same numeric id;
  and the stored input array is untouched, the result being a new array.
\<close>

theorem sortACPs_by_number:
  assumes "\<forall>a\<in>set acps. Number (number a) \<noteq> None"
  shows "\<exists>asc desc.
     sortACPs lc acps ByNumber Asc = Some asc \<and>
     sortACPs lc acps ByNumber Desc = Some desc \<and>
     mset asc = mset acps \<and> mset desc = mset acps \<and>
     sorted_wrt id_le asc \<and> sorted_wrt (\<lambda>a b. id_le b a) desc \<and>
     (\<forall>n. [a \<leftarrow> asc. Number (number a) = n] = [a \<leftarrow> acps. Number (number a) = n]) \<and>
     (\<forall>n. [a \<leftarrow> desc. Number (number a) = n] = [a \<leftarrow> acps. Number (number a) = n]) \<and>
     map (\<lambda>a. Number (number a)) desc = rev (map (\<lambda>a. Number (number a)) asc) \<and>
     (distinct (map (\<lambda>a. Number (number a)) acps) \<longrightarrow> desc = rev asc) \<and>
     (\<forall>h r ord. r < length h \<and> h ! r = acps \<longrightarrow>
        (\<exists>r' h'. sortACPs_store lc h r ByNumber ord = Some (r', h') \<and> r' \<noteq> r \<and>
                 h' ! r = acps \<and> Some (h' ! r') = sortACPs lc acps ByNumber ord))"
proof (intro exI conjI)
  let ?asc = "sort_key numeric acps" and ?desc = "sort_key (\<lambda>a. - numeric a) acps"
  have some: "\<forall>a\<in>set ?asc. Number (number a) \<noteq> None" "\<forall>a\<in>set ?desc. Number (number a) \<noteq> None"
    "\<forall>a\<in>set (rev ?asc). Number (number a) \<noteq> None" "\<forall>a\<in>set (rev ?desc). Number (number a) \<noteq> None"
    using assms by simp_all
  show a: "sortACPs lc acps ByNumber Asc = Some ?asc" by (rule sortACPs_number_asc[OF assms])
  show d: "sortACPs lc acps ByNumber Desc = Some ?desc" by (rule sortACPs_number_desc[OF assms])
  show "mset ?asc = mset acps" "mset ?desc = mset acps" by simp_all
  show "sorted_wrt id_le ?asc" by (simp add: sorted_wrt_id_le[OF some(1)])
  have "sorted_wrt id_le (rev ?desc)"
    unfolding sorted_wrt_id_le[OF some(4)] sorted_neg_rev[symmetric] by (rule sorted_sort_key)
  then show "sorted_wrt (\<lambda>a b. id_le b a) ?desc" by (simp add: sorted_wrt_rev)
  show "\<forall>n. [a \<leftarrow> ?asc. Number (number a) = n] = [a \<leftarrow> acps. Number (number a) = n]"
  proof
    fix n
    have "\<And>v. [a \<leftarrow> ?asc. numeric a = v] = [a \<leftarrow> acps. numeric a = v]"
      by (rule sort_key_stable)
    then show "[a \<leftarrow> ?asc. Number (number a) = n] = [a \<leftarrow> acps. Number (number a) = n]"
      unfolding same_id_numeric[OF some(1)] same_id_numeric[OF assms]
      by (cases n) simp_all
  qed
  show "\<forall>n. [a \<leftarrow> ?desc. Number (number a) = n] = [a \<leftarrow> acps. Number (number a) = n]"
  proof
    fix n
    have "\<And>v. [a \<leftarrow> ?desc. - numeric a = - v] = [a \<leftarrow> acps. - numeric a = - v]"
      by (rule sort_key_stable)
    then have "\<And>v. [a \<leftarrow> ?desc. numeric a = v] = [a \<leftarrow> acps. numeric a = v]"
      by simp
    then show "[a \<leftarrow> ?desc. Number (number a) = n] = [a \<leftarrow> acps. Number (number a) = n]"
      unfolding same_id_numeric[OF some(2)] same_id_numeric[OF assms]
      by (cases n) simp_all
  qed
  have num: "\<And>xs. \<forall>a\<in>set xs. Number (number a) \<noteq> None \<Longrightarrow>
       map (\<lambda>a. Number (number a)) xs = map Some (map numeric xs)"
    by (auto simp: numeric_def)
  show "map (\<lambda>a. Number (number a)) ?desc = rev (map (\<lambda>a. Number (number a)) ?asc)"
    unfolding num[OF some(1)] num[OF some(2)] sort_key_neg_keys by (simp add: rev_map)
  show "distinct (map (\<lambda>a. Number (number a)) acps) \<longrightarrow> ?desc = rev ?asc"
  proof
    assume "distinct (map (\<lambda>a. Number (number a)) acps)"
    then have "distinct (map Some (map numeric acps))" using num[OF assms] by simp
    then have "distinct (map numeric acps)" unfolding distinct_map[of Some] by blast
    then show "?desc = rev ?asc" by (rule sort_key_neg_rev)
  qed
  show "\<forall>h r ord. r < length h \<and> h ! r = acps \<longrightarrow>
        (\<exists>r' h'. sortACPs_store lc h r ByNumber ord = Some (r', h') \<and> r' \<noteq> r \<and>
                 h' ! r = acps \<and> Some (h' ! r') = sortACPs lc acps ByNumber ord)"
  proof (intro allI impI)
    fix h :: store and r ord
    assume hr: "r < length h \<and> h ! r = acps"
    obtain ys where ys: "sortACPs lc acps ByNumber ord = Some ys"
      using a d by (cases ord) auto
    have "sortACPs_store lc h r ByNumber ord = Some (length h, h @ [ys])"
      using hr ys by (simp add: sortACPs_store_eq)
    moreover have "length h \<noteq> r" using hr by simp
    moreover have "(h @ [ys]) ! r = acps" using hr by (simp add: nth_append)
    moreover have "Some ((h @ [ys]) ! length h) = sortACPs lc acps ByNumber ord"
      using ys by simp
    ultimately show "\<exists>r' h'. sortACPs_store lc h r ByNumber ord = Some (r', h') \<and> r' \<noteq> r \<and>
                 h' ! r = acps \<and> Some (h' ! r') = sortACPs lc acps ByNumber ord"
      by blast
  qed
qed

theorem sortACPs_by_number_witness:
  "sortACPs no_locale acps_three ByNumber Asc = Some acps_three \<and>
   sortACPs no_locale acps_three ByNumber Desc = Some (rev acps_three) \<and>
   [a \<leftarrow> acps_three. Number (number a) = Some 2] = [acp_with ''2'' ''b'' ''Draft'' ''Standards'']"
proof -
  have n: "\<forall>a\<in>set acps_three. Number (number a) \<noteq> None" by code_simp
  have d: "distinct (map (\<lambda>a. Number (number a)) acps_three)" by code_simp
  have a: "sortACPs no_locale acps_three ByNumber Asc = Some acps_three"
    by code_simp
  have f: "[a \<leftarrow> acps_three. Number (number a) = Some 2] =
      [acp_with ''2'' ''b'' ''Draft'' ''Standards'']" by code_simp
  from sortACPs_by_number[OF n, of no_locale] obtain asc desc where
    r: "sortACPs no_locale acps_three ByNumber Asc = Some asc"
      "sortACPs no_locale acps_three ByNumber Desc = Some desc"
      "distinct (map (\<lambda>a. Number (number a)) acps_three) \<longrightarrow> desc = rev asc"
    by blast
  have "asc = acps_three" using r(1) a by simp
  then have "sortACPs no_locale acps_three ByNumber Desc = Some (rev acps_three)"
    using r(2,3) d by simp
  with a f show ?thesis by simp
qed

text \<open>
  The claim as stated fails on a tie: two records with the id 7 come out in input order in
  both directions, so the descending output is not the reverse of the ascending one.
\<close>

theorem sortACPs_reverse_counterexample:
  "sortACPs no_locale acps_tie ByNumber Asc = Some acps_tie \<and>
   sortACPs no_locale acps_tie ByNumber Desc = Some acps_tie \<and>
   rev acps_tie \<noteq> acps_tie"
proof (intro conjI)
  show "sortACPs no_locale acps_tie ByNumber Asc = Some acps_tie" by code_simp
  show "sortACPs no_locale acps_tie ByNumber Desc = Some acps_tie" by code_simp
  show "rev acps_tie \<noteq> acps_tie" by (simp add: acps_tie_def acp_with_def)
qed

lemma comparator_complexity:
  "comparator lc ByComplexity ord a b = Some (tier_key ord a - tier_key ord b)"
  by (simp add: comparator_def comparison_def tier_key_def tier_of_def)

lemma sortACPs_complexity:
  "sortACPs lc acps ByComplexity ord = Some (sort_key (tier_key ord) acps)"
  unfolding sortACPs_def by (rule array_sort_key) (rule comparator_complexity)

lemma tier_of_with_tier: "tier_of (with_tier a) = tier_of a"
  by (simp add: with_tier_def tier_of_def)

lemma tier_key_with_tier: "tier_key ord (with_tier a) = tier_key ord a"
  by (simp add: tier_key_def tier_of_with_tier)

lemma insort_key_map_same:
  assumes "\<And>x. k (f x) = k x"
  shows "insort_key k (f x) (map f ys) = map f (insort_key k x ys)"
  by (induction ys) (simp_all add: assms)

lemma sort_key_map_same:
  assumes "\<And>x. k (f x) = k x"
  shows "sort_key k (map f xs) = map f (sort_key k xs)"
  by (induction xs) (simp_all add: insort_key_map_same[where k = k and f = f, OF assms])

section \<open>sortACPs by complexity: an absent tier\<close>

text \<open>
  Claim C10. Under the key \<^verbatim>\<open>complexity\<close> a record without a complexity is treated as Low.
  In both directions the comparator gives 0 for a record without complexity against a Low
  record, either way round, and gives for any two records what it gives with the absent tiers
  filled in with Low; so sorting a collection and filling in the absent tiers can be done in
  either order. The tiers are ordered Low, Medium, High, and the ascending output is in that
  order.
\<close>

theorem sortACPs_absent_complexity:
  "comparator lc ByComplexity ord (a\<lparr>complexity := None\<rparr>) (b\<lparr>complexity := Some Low\<rparr>) = Some 0 \<and>
   comparator lc ByComplexity ord (b\<lparr>complexity := Some Low\<rparr>) (a\<lparr>complexity := None\<rparr>) = Some 0 \<and>
   comparator lc ByComplexity ord a b = comparator lc ByComplexity ord (with_tier a) (with_tier b) \<and>
   sortACPs lc (map with_tier acps) ByComplexity ord =
     map_option (map with_tier) (sortACPs lc acps ByComplexity ord) \<and>
   (\<exists>ys. sortACPs lc acps ByComplexity Asc = Some ys \<and>
         sorted (map (\<lambda>a. complexityOrder (tier_of a)) ys)) \<and>
   complexityOrder Low < complexityOrder Medium \<and> complexityOrder Medium < complexityOrder High"
proof (intro conjI)
  show "comparator lc ByComplexity ord (a\<lparr>complexity := None\<rparr>) (b\<lparr>complexity := Some Low\<rparr>) = Some 0"
    by (simp add: comparator_def comparison_def)
  show "comparator lc ByComplexity ord (b\<lparr>complexity := Some Low\<rparr>) (a\<lparr>complexity := None\<rparr>) = Some 0"
    by (simp add: comparator_def comparison_def)
  show "comparator lc ByComplexity ord a b = comparator lc ByComplexity ord (with_tier a) (with_tier b)"
    by (simp add: comparator_complexity tier_key_with_tier)
  show "sortACPs lc (map with_tier acps) ByComplexity ord =
     map_option (map with_tier) (sortACPs lc acps ByComplexity ord)"
    by (simp add: sortACPs_complexity sort_key_map_same[where k = "tier_key ord" and f = with_tier, OF tier_key_with_tier])
  have "sorted (map (tier_key Asc) (sort_key (tier_key Asc) acps))" by (rule sorted_sort_key)
  moreover have "tier_key Asc = (\<lambda>a. complexityOrder (tier_of a))"
    by (rule ext) (simp add: tier_key_def)
  ultimately have "sorted (map (\<lambda>a. complexityOrder (tier_of a)) (sort_key (tier_key Asc) acps))"
    by simp
  then show "\<exists>ys. sortACPs lc acps ByComplexity Asc = Some ys \<and>
         sorted (map (\<lambda>a. complexityOrder (tier_of a)) ys)"
    by (simp add: sortACPs_complexity)
  show "complexityOrder Low < complexityOrder Medium" by simp
  show "complexityOrder Medium < complexityOrder High" by simp
qed

theorem sortACPs_absent_complexity_witness:
  "sortACPs no_locale acps_tiers ByComplexity Desc =
     Some [acps_tiers ! 3, acps_tiers ! 0, acps_tiers ! 1, acps_tiers ! 2] \<and>
   sortACPs no_locale (map with_tier acps_tiers) ByComplexity Desc =
     Some (map with_tier [acps_tiers ! 3, acps_tiers ! 0, acps_tiers ! 1, acps_tiers ! 2])"
proof -
  have e: "sortACPs no_locale acps_tiers ByComplexity Desc =
     Some [acps_tiers ! 3, acps_tiers ! 0, acps_tiers ! 1, acps_tiers ! 2]"
    by code_simp
  show ?thesis
    using sortACPs_absent_complexity[of no_locale Desc _ _ acps_tiers] e by simp
qed

subsection \<open>Authors\<close>













section \<open>parseAuthors: names and handles\<close>



subsection \<open>The scan of the table\<close>

lemma parse_row_authors:
  "\<not> is_authors_row line \<Longrightarrow> s_authors (parse_row st line) = s_authors st"
  by (simp add: parse_row_def Let_def)

lemma parse_row_dependencies:
  "\<not> is_depends_row line \<Longrightarrow> s_dependencies (parse_row st line) = s_dependencies st"
  by (simp add: parse_row_def Let_def)

lemma parse_row_replaces:
  "\<not> is_replaces_row line \<Longrightarrow> s_replaces (parse_row st line) = s_replaces st"
  by (simp add: parse_row_def Let_def)

lemma parse_row_supersededBy:
  "\<not> is_superseded_row line \<Longrightarrow> s_supersededBy (parse_row st line) = s_supersededBy st"
  by (simp add: parse_row_def Let_def)

lemma scan_keeps:
  assumes "\<And>st line. line \<in> set ls \<Longrightarrow> f (parse_row st line) = f st"
    and "\<And>st b. f (st\<lparr>inTable := b\<rparr>) = f st"
  shows "f (scan st ls) = f st"
  using assms(1)
proof (induction st ls rule: scan.induct)
  case (1 st)
  then show ?case by simp
next
  case (2 st line rest)
  then show ?case by (simp add: assms(2))
qed

lemma scan_authors:
  assumes "\<forall>l\<in>set ls. \<not> is_authors_row l"
  shows "s_authors (scan st ls) = s_authors st"
  by (rule scan_keeps) (simp_all add: parse_row_authors assms)

lemma scan_dependencies:
  assumes "\<forall>l\<in>set ls. \<not> is_depends_row l"
  shows "s_dependencies (scan st ls) = s_dependencies st"
  by (rule scan_keeps) (simp_all add: parse_row_dependencies assms)

lemma scan_replaces:
  assumes "\<forall>l\<in>set ls. \<not> is_replaces_row l"
  shows "s_replaces (scan st ls) = s_replaces st"
  by (rule scan_keeps) (simp_all add: parse_row_replaces assms)

lemma scan_supersededBy:
  assumes "\<forall>l\<in>set ls. \<not> is_superseded_row l"
  shows "s_supersededBy (scan st ls) = s_supersededBy st"
  by (rule scan_keeps) (simp_all add: parse_row_supersededBy assms)

lemma parseACPMarkdown_None:
  "parseACPMarkdown md path = None \<longleftrightarrow>
     str_match False re_folder path = None \<or>
     s_title (scan_document md) = [] \<or> s_status (scan_document md) = [] \<or>
     s_track (scan_document md) = []"
  by (simp add: parseACPMarkdown_def scan_document_def Let_def split: option.splits)

lemma parseACPMarkdown_Some:
  assumes "parseACPMarkdown md path = Some r"
  shows "title r = s_title (scan_document md)" "status r = s_status (scan_document md)"
    "track r = s_track (scan_document md)" "authors r = s_authors (scan_document md)"
    "dependencies r = Some (s_dependencies (scan_document md))"
    "replaces r = Some (s_replaces (scan_document md))"
    "supersededBy r = Some (s_supersededBy (scan_document md))"
  using assms
  by (auto simp: parseACPMarkdown_def scan_document_def Let_def split: option.splits if_splits)


section \<open>parseACPMarkdown: the required fields\<close>

text \<open>
  Claim C1, as amended. For every document whose file path matches the folder convention,
  \<^verbatim>\<open>parseACPMarkdown\<close> returns \<^verbatim>\<open>null\<close> exactly when, after the scan of the metadata table,
  the title, the status or the track is empty; a document whose path does not match is
  rejected whatever its table holds. Every record returned has a non-empty title, status and
  track, and where the document has no Author(s), Depends-On, Replaces or Superseded-By row
  the corresponding collection of the record is empty.
\<close>

theorem parseACPMarkdown_required_fields:
  "(str_match False re_folder path \<noteq> None \<longrightarrow>
      (parseACPMarkdown md path = None \<longleftrightarrow>
         s_title (scan_document md) = [] \<or> s_status (scan_document md) = [] \<or>
         s_track (scan_document md) = [])) \<and>
   (str_match False re_folder path = None \<longrightarrow> parseACPMarkdown md path = None) \<and>
   (parseACPMarkdown md path = Some r \<longrightarrow>
      title r \<noteq> [] \<and> status r \<noteq> [] \<and> track r \<noteq> [] \<and>
      ((\<forall>l\<in>set (lines_of md). \<not> is_authors_row l) \<longrightarrow> authors r = []) \<and>
      ((\<forall>l\<in>set (lines_of md). \<not> is_depends_row l) \<longrightarrow> dependencies r = Some []) \<and>
      ((\<forall>l\<in>set (lines_of md). \<not> is_replaces_row l) \<longrightarrow> replaces r = Some []) \<and>
      ((\<forall>l\<in>set (lines_of md). \<not> is_superseded_row l) \<longrightarrow> supersededBy r = Some []))"
proof (intro conjI impI)
  assume "str_match False re_folder path \<noteq> None"
  then show "parseACPMarkdown md path = None \<longleftrightarrow>
         s_title (scan_document md) = [] \<or> s_status (scan_document md) = [] \<or>
         s_track (scan_document md) = []"
    unfolding parseACPMarkdown_None by blast
next
  assume "str_match False re_folder path = None"
  then show "parseACPMarkdown md path = None" by (simp add: parseACPMarkdown_None)
next
  assume r: "parseACPMarkdown md path = Some r"
  then have nn: "parseACPMarkdown md path \<noteq> None" by simp
  note f = parseACPMarkdown_Some[OF r]
  show "title r \<noteq> []" "status r \<noteq> []" "track r \<noteq> []"
    using nn unfolding f parseACPMarkdown_None by simp_all
  {
    assume "\<forall>l\<in>set (lines_of md). \<not> is_authors_row l"
    then show "authors r = []"
      unfolding f scan_document_def lines_of_def by (simp add: scan_authors scan_init_def)
  }
  {
    assume "\<forall>l\<in>set (lines_of md). \<not> is_depends_row l"
    then show "dependencies r = Some []"
      unfolding f scan_document_def lines_of_def by (simp add: scan_dependencies scan_init_def)
  }
  {
    assume "\<forall>l\<in>set (lines_of md). \<not> is_replaces_row l"
    then show "replaces r = Some []"
      unfolding f scan_document_def lines_of_def by (simp add: scan_replaces scan_init_def)
  }
  {
    assume "\<forall>l\<in>set (lines_of md). \<not> is_superseded_row l"
    then show "supersededBy r = Some []"
      unfolding f scan_document_def lines_of_def by (simp add: scan_supersededBy scan_init_def)
  }
qed

theorem parseACPMarkdown_required_fields_witness:
  "str_match False re_folder path_good \<noteq> None \<and>
   parseACPMarkdown doc_no_track path_good = None \<and>
   (\<exists>r. parseACPMarkdown doc_minimal path_good = Some r \<and> title r = ''Warp'' \<and>
        status r = ''Proposed'' \<and> track r = ''Standards'' \<and> authors r = [] \<and>
        dependencies r = Some [])"
proof -
  have p: "str_match False re_folder path_good \<noteq> None" by code_simp
  have t: "s_track (scan_document doc_no_track) = []" by code_simp
  have n: "parseACPMarkdown doc_no_track path_good = None"
    using parseACPMarkdown_required_fields[of path_good doc_no_track] p t by blast
  have s: "s_title (scan_document doc_minimal) = ''Warp''"
    "s_status (scan_document doc_minimal) = ''Proposed''"
    "s_track (scan_document doc_minimal) = ''Standards''"
    by code_simp+
  have "parseACPMarkdown doc_minimal path_good \<noteq> None"
    using parseACPMarkdown_required_fields[of path_good doc_minimal] p s by simp
  then obtain r where r: "parseACPMarkdown doc_minimal path_good = Some r" by blast
  have a: "\<forall>l\<in>set (lines_of doc_minimal). \<not> is_authors_row l" by code_simp
  have d: "\<forall>l\<in>set (lines_of doc_minimal). \<not> is_depends_row l" by code_simp
  have "authors r = []" "dependencies r = Some []"
    using parseACPMarkdown_required_fields[of path_good doc_minimal r] r a d by blast+
  moreover have "title r = ''Warp''" "status r = ''Proposed''" "track r = ''Standards''"
    using parseACPMarkdown_Some[OF r] s by simp_all
  ultimately show ?thesis using p n r by blast
qed

text \<open>
  The claim as stated fails on a document with a complete table under a folder without a
  numeric prefix: it is rejected although the scan finds all three fields.
\<close>

theorem parseACPMarkdown_path_counterexample:
  "parseACPMarkdown doc_minimal path_bad = None \<and>
   s_title (scan_document doc_minimal) = ''Warp'' \<and>
   s_status (scan_document doc_minimal) = ''Proposed'' \<and>
   s_track (scan_document doc_minimal) = ''Standards''"
  by (intro conjI; code_simp)

subsection \<open>The matcher on literal text and on runs of a class\<close>

lemma last_char_Cons: "last_char p (x # w) = last_char (Some x) w"
  by (simp add: last_char_def)

lemma matches_Str:
  "matches ci (Str v) (p, s, c) =
     (if begins_with ci s v then [(last_char p (take (length v) s), drop (length v) s, c)]
      else [])"
proof (induction v arbitrary: p s)
  case Nil
  then show ?case by (simp add: begins_with_def last_char_def)
next
  case (Cons a v)
  show ?case
  proof (cases s)
    case Nil
    then show ?thesis by (simp add: begins_with_def)
  next
    case (Cons x xs)
    show ?thesis
    proof (cases "lit_eq ci a x")
      case True
      then have b: "begins_with ci (x # xs) (a # v) = begins_with ci xs v"
        by (simp add: begins_with_def)
      show ?thesis
        unfolding Cons b using True Cons.IH[of "Some x" xs]
        by (simp add: last_char_Cons)
    next
      case False
      then show ?thesis unfolding Cons by (simp add: begins_with_def)
    qed
  qed
qed

lemma star_atom_then:
  assumes "\<forall>x\<in>set L. P x" and "t = [] \<or> \<not> P (hd t)"
    and "\<And>p' z zs c'. P z \<Longrightarrow> K (p', z # zs, c') = []"
  shows "concat (map K (matches ci (Star (Atom P)) (p, L @ t, c))) = K (last_char p L, t, c)"
  using assms(1)
proof (induction L arbitrary: p)
  case Nil
  have "matches ci (Atom P) (p, t, c) = []"
    using assms(2) by (cases t) auto
  then show ?case by (simp add: last_char_def)
next
  case (Cons x L)
  then have px: "P x" and IH: "concat (map K (matches ci (Star (Atom P)) (Some x, L @ t, c))) =
      K (last_char (Some x) L, t, c)"
    by simp_all
  show ?case using px IH by (simp add: assms(3) last_char_Cons)
qed

lemma plus_atom_then:
  assumes "\<forall>x\<in>set L. P x" and "t = [] \<or> \<not> P (hd t)"
    and "\<And>p' z zs c'. P z \<Longrightarrow> K (p', z # zs, c') = []"
  shows "concat (map K (matches ci (Plus (Atom P)) (p, L @ t, c))) =
         (if L = [] then [] else K (last_char p L, t, c))"
proof (cases L)
  case Nil
  have "matches ci (Atom P) (p, t, c) = []"
    using assms(2) by (cases t) auto
  then show ?thesis using Nil by (simp add: Plus_def)
next
  case (Cons x L')
  then have px: "P x" and L': "\<forall>x\<in>set L'. P x" using assms(1) by simp_all
  have "matches ci (Plus (Atom P)) (p, L @ t, c) = matches ci (Star (Atom P)) (Some x, L' @ t, c)"
    using px Cons by (simp add: Plus_def)
  then show ?thesis
    using star_atom_then[OF L' assms(2), of K ci "Some x" c] assms(3) Cons
    by (simp add: last_char_Cons)
qed

subsection \<open>The status pattern\<close>

lemma is_lower_lower_char: "is_upper x \<Longrightarrow> is_lower (lower_char x)"
  by (simp add: lower_char_def is_upper_def is_lower_def)

lemma lit_eq_plain:
  assumes "\<not> is_upper a" "\<not> is_lower a"
  shows "lit_eq ci a x \<longleftrightarrow> a = x"
proof (cases "is_upper x")
  case True
  then have "is_lower (lower_char x)" by (rule is_lower_lower_char)
  with assms True show ?thesis by (auto simp: lit_eq_def lower_char_def)
next
  case False
  with assms show ?thesis by (auto simp: lit_eq_def lower_char_def)
qed

lemma lit_eq_brackets [simp]:
  "lit_eq ci CHR ''['' x \<longleftrightarrow> x = CHR ''[''" "lit_eq ci CHR '']'' x \<longleftrightarrow> x = CHR '']''"
  by (auto simp: lit_eq_plain is_upper_def is_lower_def)

lemma concat_map_if:
  "concat (map (\<lambda>v. if Q v then [f v] else []) vs) = map f (filter Q vs)"
  by (induction vs) simp_all

lemma matches_Alts:
  assumes "rs \<noteq> []"
  shows "matches ci (Alts rs) st = concat (map (\<lambda>r. matches ci r st) rs)"
  using assms
proof (induction rs rule: Alts.induct)
  case 1
  then show ?case by simp
next
  case (2 r)
  then show ?case by simp
next
  case (3 r v va)
  obtain p s c where st: "st = (p, s, c)" by (cases st)
  from 3 show ?case unfolding st by simp
qed

lemma matches_words:
  assumes "vs \<noteq> []"
  shows "matches ci (Alts (map Str vs)) (p, s, c) =
         map (\<lambda>v. (last_char p (take (length v) s), drop (length v) s, c))
             (filter (begins_with ci s) vs)"
proof -
  have "matches ci (Alts (map Str vs)) (p, s, c) =
        concat (map (\<lambda>r. matches ci r (p, s, c)) (map Str vs))"
    using assms by (simp add: matches_Alts)
  also have "\<dots> = concat (map (\<lambda>v. if begins_with ci s v
        then [(last_char p (take (length v) s), drop (length v) s, c)] else []) vs)"
    by (simp add: comp_def matches_Str)
  finally show ?thesis by (simp add: concat_map_if)
qed


lemma matches_label:
  "matches True (Seqs [Lit CHR ''['', Grp 1 (Plus (Atom (\<lambda>c. c \<noteq> CHR '']''))), Lit CHR '']''])
     (p, s, c) =
   (case label_at s of
      None \<Rightarrow> []
    | Some l \<Rightarrow> [(Some CHR '']'', tl (dropWhile (\<lambda>c. c \<noteq> CHR '']'') (tl s)), c(1 := Some l))])"
proof (cases s)
  case Nil
  then show ?thesis by (simp add: label_at_def)
next
  case (Cons x u)
  let ?P = "\<lambda>c. c \<noteq> CHR '']''"
  let ?L = "takeWhile ?P u" and ?t = "dropWhile ?P u"
  let ?K = "\<lambda>m. matches True (Lit CHR '']'')
      (case m of (p', s', c') \<Rightarrow> (p', s', c'(1 := Some (take (length u - length s') u))))"
  show ?thesis
  proof (cases "x = CHR ''[''")
    case False
    then show ?thesis unfolding Cons by (simp add: label_at_def)
  next
    case True
    have u: "u = ?L @ ?t" by simp
    have t: "?t = [] \<or> \<not> ?P (hd ?t)" using hd_dropWhile[of ?P u] by blast
    have kills: "\<And>p' z zs c'. ?P z \<Longrightarrow> ?K (p', z # zs, c') = []" by simp
    have "matches True (Seqs [Lit CHR ''['', Grp 1 (Plus (Atom ?P)), Lit CHR '']'']) (p, s, c) =
          concat (map ?K (matches True (Plus (Atom ?P)) (Some x, u, c)))"
      unfolding Cons using True by (simp add: map_concat comp_def)
    also have "\<dots> = concat (map ?K (matches True (Plus (Atom ?P)) (Some x, ?L @ ?t, c)))"
      by simp
    also have "\<dots> = (if ?L = [] then [] else ?K (last_char (Some x) ?L, ?t, c))"
    proof (rule plus_atom_then[where P = ?P and K = ?K])
      show "\<forall>x\<in>set ?L. ?P x" by (auto dest: set_takeWhileD)
      show "?t = [] \<or> \<not> ?P (hd ?t)" by (rule t)
      show "\<And>p' z zs c'. ?P z \<Longrightarrow> ?K (p', z # zs, c') = []" by (rule kills)
    qed
    also have "\<dots> = (if ?L \<noteq> [] \<and> ?t \<noteq> []
                     then [(Some CHR '']'', tl ?t, c(1 := Some ?L))] else [])"
    proof (cases ?t)
      case Nil
      show ?thesis unfolding Nil by simp
    next
      case (Cons y ys)
      then have y: "y = CHR '']''" using t by simp
      have len: "length u - length ?t = length ?L"
        by (metis add_diff_cancel_right' length_append takeWhile_dropWhile_id)
      have tk: "take (length ?L) u = ?L"
        by (metis append_eq_conv_conj takeWhile_dropWhile_id)
      have "take (length u - length (y # ys)) u = ?L"
        using len tk unfolding Cons by simp
      then show ?thesis unfolding Cons y by simp
    qed
    finally show ?thesis unfolding Cons using True by (simp add: label_at_def)
  qed
qed

lemma matches_whole_words:
  assumes "vs \<noteq> []"
  shows "matches True (Seqs [WordB, Grp 2 (Alts (map Str vs)), WordB]) (p, s, c) =
     (if at_word_boundary p s then
        map (\<lambda>v. (last_char p (take (length v) s), drop (length v) s,
                  c(2 := Some (take (length v) s))))
            (filter (whole_word_at p s) vs)
      else [])"
proof (cases "at_word_boundary p s")
  case False
  then show ?thesis by simp
next
  case True
  let ?st = "\<lambda>v. (last_char p (take (length v) s), drop (length v) s, c)"
  let ?upd = "\<lambda>m. case m of (p', s', c') \<Rightarrow>
      (p', s', c'(2 := Some (take (length s - length s') s)))"
  let ?g = "\<lambda>v. (last_char p (take (length v) s), drop (length v) s,
                  c(2 := Some (take (length v) s)))"
  have g: "map ?upd (map ?st (filter (begins_with True s) vs)) =
           map ?g (filter (begins_with True s) vs)"
    by (auto simp: begins_with_def)
  have "matches True (Seqs [WordB, Grp 2 (Alts (map Str vs)), WordB]) (p, s, c) =
        concat (map (matches True WordB) (map ?upd (matches True (Alts (map Str vs)) (p, s, c))))"
    using True by simp
  also have "\<dots> = concat (map (matches True WordB) (map ?g (filter (begins_with True s) vs)))"
    unfolding matches_words[OF assms] g ..
  also have "\<dots> = concat (map (\<lambda>v. if at_word_boundary (last_char p (take (length v) s))
                      (drop (length v) s) then [?g v] else []) (filter (begins_with True s) vs))"
    by (simp add: comp_def)
  also have "\<dots> = map ?g (filter (whole_word_at p s) vs)"
  proof -
    have ww: "whole_word_at p s = (\<lambda>v. begins_with True s v \<and>
        at_word_boundary (last_char p (take (length v) s)) (drop (length v) s))"
      by (rule ext) (simp add: whole_word_at_def)
    show ?thesis unfolding concat_map_if ww by simp
  qed
  finally show ?thesis using True by simp
qed


lemma status_words_nonempty: "v \<in> set status_words \<Longrightarrow> v \<noteq> []"
  by (auto simp: status_words_def)

lemma matches_re_status:
  "matches True re_status (p, s, c) =
     (case label_at s of
        None \<Rightarrow> []
      | Some l \<Rightarrow> [(Some CHR '']'', tl (dropWhile (\<lambda>c. c \<noteq> CHR '']'') (tl s)), c(1 := Some l))]) @
     (if at_word_boundary p s then
        map (\<lambda>v. (last_char p (take (length v) s), drop (length v) s,
                  c(2 := Some (take (length v) s))))
            (filter (whole_word_at p s) status_words)
      else [])"
proof -
  have ne: "status_words \<noteq> []" by (simp add: status_words_def)
  show ?thesis
    unfolding re_status_def matches.simps matches_label matches_whole_words[OF ne] ..
qed

text \<open>The text the module takes from a match: \<^verbatim>\<open>m[1] || m[2]\<close>.\<close>

lemma status_head:
  "(matches True re_status (p, s, \<lambda>_. None) = [] \<and> token_at p s = None) \<or>
   (\<exists>p' s' c' rest t. matches True re_status (p, s, \<lambda>_. None) = (p', s', c') # rest \<and>
      token_at p s = Some t \<and> t \<noteq> [] \<and>
      (if truthy (c' 1) then c' 1 = Some t else c' 2 = Some t))"
proof (cases "label_at s")
  case (Some l)
  then have "l \<noteq> []" by (auto simp: label_at_def split: list.splits if_splits)
  then show ?thesis using Some
    by (simp add: matches_re_status token_at_def truthy_def)
next
  case None
  show ?thesis
  proof (cases "at_word_boundary p s")
    case False
    then show ?thesis using None by (simp add: matches_re_status token_at_def word_at_def)
  next
    case True
    show ?thesis
    proof (cases "filter (whole_word_at p s) status_words")
      case Nil
      then show ?thesis using None True
        by (simp add: matches_re_status token_at_def word_at_def)
    next
      case (Cons v vs)
      then have "v \<in> set (filter (whole_word_at p s) status_words)" by simp
      then have v: "v \<in> set status_words" "whole_word_at p s v" by simp_all
      then have "v \<noteq> []" "length v \<le> length s"
        by (simp_all add: status_words_nonempty whole_word_at_def begins_with_def)
      then have "take (length v) s \<noteq> []" by (cases v; cases s) simp_all
      then show ?thesis using None True Cons
        by (simp add: matches_re_status token_at_def word_at_def truthy_def)
    qed
  qed
qed

lemma search_status:
  "(case search_from True re_status p s of
      None \<Rightarrow> None
    | Some m \<Rightarrow> if truthy (groups m 1) then groups m 1
               else if truthy (groups m 2) then groups m 2 else None) = first_token p s"
proof (induction s arbitrary: p)
  case Nil
  from status_head[of p "[]"] show ?case
    by (elim disjE exE conjE) (auto simp: truthy_def split: if_splits)
next
  case (Cons x xs)
  from status_head[of p "x # xs"] show ?case
  proof (elim disjE exE conjE)
    assume m: "matches True re_status (p, x # xs, \<lambda>_. None) = []"
      and t: "token_at p (x # xs) = None"
    have "(case map_option (\<lambda>f. f\<lparr>m_before := x # m_before f\<rparr>) (search_from True re_status (Some x) xs) of
            None \<Rightarrow> None
          | Some m \<Rightarrow> if truthy (groups m 1) then groups m 1
               else if truthy (groups m 2) then groups m 2 else None) =
          (case search_from True re_status (Some x) xs of
            None \<Rightarrow> None
          | Some m \<Rightarrow> if truthy (groups m 1) then groups m 1
               else if truthy (groups m 2) then groups m 2 else None)"
      by (cases "search_from True re_status (Some x) xs") simp_all
    then show ?thesis using m t Cons.IH[of "Some x"] by simp
  next
    fix p' s' c' rest t
    assume m: "matches True re_status (p, x # xs, \<lambda>_. None) = (p', s', c') # rest"
      and t: "token_at p (x # xs) = Some t" "t \<noteq> []"
      and c: "if truthy (c' 1) then c' 1 = Some t else c' 2 = Some t"
    show ?thesis using m t c by (auto simp: truthy_def split: if_splits)
  qed
qed

lemma status_choice_first_token:
  "status_choice c = (case first_token None c of None \<Rightarrow> c | Some t \<Rightarrow> t)"
proof -
  have "first_token None c =
        (case search_from True re_status None c of
           None \<Rightarrow> None
         | Some m \<Rightarrow> if truthy (groups m 1) then groups m 1
               else if truthy (groups m 2) then groups m 2 else None)"
    by (simp add: search_status)
  then show ?thesis
    by (auto simp: status_choice_def str_match_def group_text_def truthy_def
             split: option.splits)
qed

subsection \<open>Parentheticals\<close>

lemma lit_eq_parens [simp]:
  "lit_eq ci CHR ''('' x \<longleftrightarrow> x = CHR ''(''" "lit_eq ci CHR '')'' x \<longleftrightarrow> x = CHR '')''"
  by (auto simp: lit_eq_plain is_upper_def is_lower_def)

lemma matches_parenthetical:
  "matches False re_parenthetical (p, s, c) =
     (case s of
        [] \<Rightarrow> []
      | x # xs \<Rightarrow>
          if x = CHR ''('' \<and> CHR '')'' \<in> set xs
          then [(Some CHR '')'', tl (dropWhile (\<lambda>c. c \<noteq> CHR '')'') xs), c)] else [])"
proof (cases s)
  case Nil
  then show ?thesis by (simp add: re_parenthetical_def)
next
  case (Cons x xs)
  let ?P = "\<lambda>c. c \<noteq> CHR '')''"
  let ?K = "\<lambda>m. matches False (Lit CHR '')'') m"
  show ?thesis
  proof (cases "x = CHR ''(''")
    case False
    then show ?thesis unfolding Cons by (simp add: re_parenthetical_def)
  next
    case True
    have t: "dropWhile ?P xs = [] \<or> \<not> ?P (hd (dropWhile ?P xs))"
      using hd_dropWhile[of ?P xs] by blast
    have "matches False re_parenthetical (p, s, c) =
          concat (map ?K (matches False (Star (Atom ?P)) (Some x, xs, c)))"
      unfolding Cons re_parenthetical_def using True by simp
    also have "\<dots> = concat (map ?K (matches False (Star (Atom ?P))
                  (Some x, takeWhile ?P xs @ dropWhile ?P xs, c)))"
      by simp
    also have "\<dots> = ?K (last_char (Some x) (takeWhile ?P xs), dropWhile ?P xs, c)"
    proof (rule star_atom_then[where P = ?P and K = ?K])
      show "\<forall>x\<in>set (takeWhile ?P xs). ?P x" by (auto dest: set_takeWhileD)
      show "dropWhile ?P xs = [] \<or> \<not> ?P (hd (dropWhile ?P xs))" by (rule t)
      show "\<And>p' z zs c'. ?P z \<Longrightarrow> ?K (p', z # zs, c') = []" by simp
    qed
    also have "\<dots> = (if CHR '')'' \<in> set xs
                     then [(Some CHR '')'', tl (dropWhile ?P xs), c)] else [])"
    proof (cases "dropWhile ?P xs")
      case Nil
      then have "CHR '')'' \<notin> set xs" by (auto simp: dropWhile_eq_Nil_conv)
      then show ?thesis unfolding Nil by simp
    next
      case (Cons y ys)
      then have y: "y = CHR '')''" using t by simp
      have "CHR '')'' \<in> set xs"
        by (metis Cons y list.set_intros(1) set_dropWhileD)
      then show ?thesis unfolding Cons y by simp
    qed
    finally show ?thesis unfolding Cons using True by simp
  qed
qed

lemma search_from_found:
  assumes "search_from ci r p s = Some f"
  shows "\<exists>u v rest. s = u @ v \<and> m_before f = u \<and>
           matches ci r (last_char p u, v, \<lambda>_. None) = (prev_after f, m_after f, groups f) # rest"
  using assms
proof (induction s arbitrary: p f)
  case Nil
  then obtain p' s' c' rest where
    m: "matches ci r (p, [], \<lambda>_. None) = (p', s', c') # rest"
    by (auto split: list.splits)
  with Nil have "f = \<lparr>m_before = [], matched = [], groups = c', prev_after = p', m_after = s'\<rparr>"
    by simp
  with m show ?case by (simp add: last_char_def)
next
  case (Cons x xs)
  show ?case
  proof (cases "matches ci r (p, x # xs, \<lambda>_. None)")
    case Nil
    with Cons.prems obtain g where g: "search_from ci r (Some x) xs = Some g"
      and f: "f = g\<lparr>m_before := x # m_before g\<rparr>"
      by auto
    from Cons.IH[OF g] obtain u v rest where
      "xs = u @ v" "m_before g = u"
      "matches ci r (last_char (Some x) u, v, \<lambda>_. None) = (prev_after g, m_after g, groups g) # rest"
      by blast
    then have "x # xs = (x # u) @ v \<and> m_before f = x # u \<and>
      matches ci r (last_char p (x # u), v, \<lambda>_. None) = (prev_after f, m_after f, groups f) # rest"
      using f by (simp add: last_char_Cons)
    then show ?thesis by blast
  next
    case (Cons m rest)
    obtain p' s' c' where m: "m = (p', s', c')" by (cases m)
    with Cons Cons.prems have
      "f = \<lparr>m_before = [], matched = take (length (x # xs) - length s') (x # xs),
            groups = c', prev_after = p', m_after = s'\<rparr>"
      by simp
    then have "x # xs = [] @ (x # xs) \<and> m_before f = [] \<and>
      matches ci r (last_char p [], x # xs, \<lambda>_. None) = (prev_after f, m_after f, groups f) # rest"
      using Cons m by (simp add: last_char_def)
    then show ?thesis by blast
  qed
qed

lemma parenthetical_found_shorter:
  assumes "search_from False re_parenthetical p s = Some f"
  shows "length (m_after f) < length s"
proof -
  from search_from_found[OF assms] obtain u v rest where
    s: "s = u @ v" and
    m: "matches False re_parenthetical (last_char p u, v, \<lambda>_. None) =
          (prev_after f, m_after f, groups f) # rest"
    by blast
  from m obtain x xs where v: "v = x # xs"
    and a: "m_after f = tl (dropWhile (\<lambda>c. c \<noteq> CHR '')'') xs)"
    by (auto simp: matches_parenthetical split: list.splits if_splits)
  have "length (m_after f) \<le> length xs"
    unfolding a using length_dropWhile_le[of "\<lambda>c. c \<noteq> CHR '')''" xs] by simp
  then show ?thesis using s v by simp
qed

lemma replace_parentheticals:
  "replace_all False re_parenthetical [] p s = strip_parens s"
proof (induction s arbitrary: p rule: length_induct)
  case (1 s)
  note IH = 1[rule_format]
  show ?case
  proof (cases s)
    case Nil
    have "search_from False re_parenthetical p [] = None"
      by (simp add: matches_parenthetical)
    then show ?thesis unfolding Nil replace_all.simps[of _ _ _ _ "[]"] by simp
  next
    case (Cons x xs)
    show ?thesis
    proof (cases "x = CHR ''('' \<and> CHR '')'' \<in> set xs")
      case True
      let ?a = "tl (dropWhile (\<lambda>c. c \<noteq> CHR '')'') xs)"
      have le: "length ?a < length s"
        unfolding Cons using length_dropWhile_le[of "\<lambda>c. c \<noteq> CHR '')''" xs] by simp
      have "\<exists>mt. search_from False re_parenthetical p (x # xs) =
            Some \<lparr>m_before = [], matched = mt,
                  groups = \<lambda>_. None, prev_after = Some CHR '')'', m_after = ?a\<rparr>"
        using True by (simp add: matches_parenthetical)
      then obtain mt where sf: "search_from False re_parenthetical p (x # xs) =
            Some \<lparr>m_before = [], matched = mt,
                  groups = \<lambda>_. None, prev_after = Some CHR '')'', m_after = ?a\<rparr>" by blast
      have "replace_all False re_parenthetical [] p (x # xs) =
            replace_all False re_parenthetical [] (Some CHR '')'') ?a"
        unfolding replace_all.simps[of _ _ _ p "x # xs"] sf using le Cons by simp
      also have "\<dots> = strip_parens ?a" by (rule IH[OF le])
      finally show ?thesis unfolding Cons using True by simp
    next
      case False
      have here: "matches False re_parenthetical (p, x # xs, \<lambda>_. None) = []"
        using False by (auto simp: matches_parenthetical)
      have xs: "replace_all False re_parenthetical [] (Some x) xs = strip_parens xs"
        by (rule IH) (simp add: Cons)
      have sp: "strip_parens (x # xs) = x # strip_parens xs"
        using False by auto
      show ?thesis
      proof (cases "search_from False re_parenthetical (Some x) xs")
        case None
        then have "search_from False re_parenthetical p (x # xs) = None"
          using here by simp
        then have "replace_all False re_parenthetical [] p (x # xs) = x # xs"
          unfolding replace_all.simps[of _ _ _ p "x # xs"] by simp
        moreover have "replace_all False re_parenthetical [] (Some x) xs = xs"
          unfolding replace_all.simps[of _ _ _ "Some x" xs] None by simp
        ultimately show ?thesis unfolding Cons sp using xs by simp
      next
        case (Some g)
        have sh: "length (m_after g) < length xs" by (rule parenthetical_found_shorter[OF Some])
        have sf: "search_from False re_parenthetical p (x # xs) =
                  Some (g\<lparr>m_before := x # m_before g\<rparr>)"
          using here Some by simp
        have "replace_all False re_parenthetical [] p (x # xs) =
              x # m_before g @
                replace_all False re_parenthetical [] (prev_after g) (m_after g)"
          unfolding replace_all.simps[of _ _ _ p "x # xs"] sf using sh by simp
        moreover have "replace_all False re_parenthetical [] (Some x) xs =
              m_before g @ replace_all False re_parenthetical [] (prev_after g) (m_after g)"
          unfolding replace_all.simps[of _ _ _ "Some x" xs] Some using sh by simp
        ultimately show ?thesis unfolding Cons sp using xs by simp
      qed
    qed
  qed
qed

subsection \<open>The status cell\<close>

lemma begins_with_simps:
  "begins_with ci s [] = True"
  "begins_with ci [] (a # v) = False"
  "begins_with ci (x # s) (a # v) = (lit_eq ci a x \<and> begins_with ci s v)"
  by (auto simp: begins_with_def)

lemma status_finish_strip:
  "status_finish s = (let t = trim (strip_parens s) in if t = [] then ''Unknown'' else t)"
  by (simp add: status_finish_def replace_parentheticals)

lemma status_finish_nonempty: "status_finish s \<noteq> []"
  by (simp add: status_finish_def Let_def)

lemma strip_parens_plain: "CHR ''('' \<notin> set s \<Longrightarrow> strip_parens s = s"
  by (induction s) auto

lemma strip_parens_append:
  "CHR ''('' \<notin> set s \<Longrightarrow> strip_parens (s @ t) = s @ strip_parens t"
  by (induction s) auto

lemma strip_parens_trailing:
  assumes "CHR ''('' \<notin> set s" "CHR '')'' \<notin> set q"
  shows "strip_parens (s @ CHR ''('' # q @ '')'') = s"
proof -
  have "dropWhile (\<lambda>c. c \<noteq> CHR '')'') (q @ '')'') = '')''"
    using assms(2) by (auto simp: dropWhile_append3)
  then have "strip_parens (CHR ''('' # q @ '')'') = []" by simp
  then show ?thesis using assms(1) by (simp add: strip_parens_append)
qed

lemma first_token_label:
  assumes "l \<noteq> []" "CHR '']'' \<notin> set l"
  shows "first_token None (CHR ''['' # l @ CHR '']'' # rest) = Some l"
proof -
  have t: "takeWhile (\<lambda>c. c \<noteq> CHR '']'') (l @ CHR '']'' # rest) = l"
    using assms(2) by (auto simp: takeWhile_tail)
  have d: "dropWhile (\<lambda>c. c \<noteq> CHR '']'') (l @ CHR '']'' # rest) = CHR '']'' # rest"
    using assms(2) by (auto simp: dropWhile_append3)
  have "label_at (CHR ''['' # l @ CHR '']'' # rest) = Some l"
    unfolding label_at_def using assms(1) by (simp add: t d)
  then show ?thesis by (simp add: token_at_def)
qed

lemma begins_with_self: "begins_with ci (v @ rest) v"
  by (induction v) (simp_all add: begins_with_simps lit_eq_def)

lemma begins_with_hd:
  assumes "begins_with ci s u" "u \<noteq> []"
  shows "s \<noteq> [] \<and> lit_eq ci (hd u) (hd s)"
  using assms by (cases u; cases s) (simp_all add: begins_with_simps)

lemma lower_first_letters:
  "lower_char CHR ''A'' = CHR ''a''" "lower_char CHR ''I'' = CHR ''i''"
  "lower_char CHR ''P'' = CHR ''p''" "lower_char CHR ''D'' = CHR ''d''"
  "lower_char CHR ''S'' = CHR ''s''" "lower_char CHR ''W'' = CHR ''w''"
  "lower_char CHR ''F'' = CHR ''f''"
  by (code_simp, code_simp, code_simp, code_simp, code_simp, code_simp, code_simp)

lemma status_words_cases:
  assumes "v \<in> set status_words"
  obtains "v = ''Activated''" | "v = ''Implementable''" | "v = ''Proposed''" | "v = ''Draft''"
    | "v = ''Stale''" | "v = ''Withdrawn''" | "v = ''Final''"
proof -
  have "v = ''Activated'' \<or> v = ''Implementable'' \<or> v = ''Proposed'' \<or> v = ''Draft'' \<or>
        v = ''Stale'' \<or> v = ''Withdrawn'' \<or> v = ''Final''"
    using assms unfolding status_words_def
    by (simp only: list.set insert_iff empty_iff simp_thms)
  then show ?thesis by (elim disjE) (erule that)+
qed

lemma status_words_first_letter:
  assumes "u \<in> set status_words" "v \<in> set status_words" "lit_eq True (hd u) (hd v)"
  shows "u = v"
proof -
  have "inj_on (\<lambda>w. lower_char (hd w)) (set status_words)"
    by (simp add: status_words_def lower_first_letters)
  moreover have "lower_char (hd u) = lower_char (hd v)" using assms(3) by (simp add: lit_eq_def)
  ultimately show ?thesis using assms(1,2) by (simp add: inj_on_def)
qed

lemma filter_eq_singleton:
  assumes "distinct xs" "v \<in> set xs" "\<And>u. u \<in> set xs \<Longrightarrow> P u \<longleftrightarrow> u = v"
  shows "filter P xs = [v]"
proof -
  have "filter P xs = filter (\<lambda>u. id v = id u) xs"
    by (rule filter_cong) (auto simp: assms(3))
  also have "\<dots> = [v]"
    by (rule filter_key_singleton) (simp_all add: assms)
  finally show ?thesis .
qed

lemma begins_with_lower:
  assumes "toLowerCase h = toLowerCase v"
  shows "begins_with True (h @ t) v"
proof -
  have "length (toLowerCase h) = length (toLowerCase v)" using assms by simp
  then have len: "length h = length v" by (simp add: toLowerCase_def)
  have "list_all2 (lit_eq True) v h"
    unfolding list_all2_conv_all_nth
  proof (intro conjI allI impI)
    show "length v = length h" using len by simp
    fix i assume i: "i < length v"
    have "map lower_char h ! i = map lower_char v ! i" using assms by (simp add: toLowerCase_def)
    then show "lit_eq True (v ! i) (h ! i)" using i len by (simp add: lit_eq_def)
  qed
  then show ?thesis using len by (simp add: begins_with_def)
qed

lemma letter_of_lower:
  assumes "lower_char x = lower_char y" "is_upper y \<or> is_lower y"
  shows "is_upper x \<or> is_lower x"
proof (cases "is_upper x")
  case True
  then show ?thesis by simp
next
  case False
  then have "lower_char x = x" by (simp add: lower_char_def)
  moreover have "is_lower (lower_char y)"
    using assms(2) by (auto simp: is_lower_lower_char lower_char_def is_upper_def is_lower_def)
  ultimately show ?thesis using assms(1) by simp
qed

lemma status_words_all_letters:
  assumes "v \<in> set status_words"
  shows "is_upper (hd v) \<or> is_lower (hd v)" "is_upper (last v) \<or> is_lower (last v)"
proof -
  show "is_upper (hd v) \<or> is_lower (hd v)"
    using assms by (rule status_words_cases) (simp_all add: is_upper_def is_lower_def)
  show "is_upper (last v) \<or> is_lower (last v)"
    using assms by (rule status_words_cases) (simp_all add: is_upper_def is_lower_def)
qed

lemma first_token_word:
  assumes "v \<in> set status_words" "toLowerCase w = toLowerCase v"
    and "rest = [] \<or> \<not> is_word_char (hd rest)"
  shows "first_token None (w @ rest) = Some w"
proof -
  have vne: "v \<noteq> []" using assms(1) by (rule status_words_nonempty)
  have "length (toLowerCase w) = length (toLowerCase v)" using assms(2) by simp
  then have len: "length w = length v" by (simp add: toLowerCase_def)
  then have ne: "w \<noteq> []" using vne by auto
  then obtain a w' where w: "w = a # w'" by (cases w) auto
  have "hd (toLowerCase w) = hd (toLowerCase v)" "last (toLowerCase w) = last (toLowerCase v)"
    using assms(2) by simp_all
  then have hl: "lower_char (hd w) = lower_char (hd v)" "lower_char (last w) = lower_char (last v)"
    using ne vne by (simp_all add: toLowerCase_def hd_map last_map)
  note V = status_words_all_letters[OF assms(1)]
  have L: "is_upper (hd w) \<or> is_lower (hd w)" "is_upper (last w) \<or> is_lower (last w)"
    using letter_of_lower[OF hl(1) V(1)] letter_of_lower[OF hl(2) V(2)] by simp_all
  have wc: "is_word_char (hd w)" "is_word_char (last w)"
    using L by (auto simp: is_word_char_def)
  have nbr: "hd w \<noteq> CHR ''[''"
    using L(1) by (auto simp: is_upper_def is_lower_def)
  have nw: "(case rest of [] \<Rightarrow> False | b # x \<Rightarrow> is_word_char b) = False"
    using assms(3) by (cases rest) auto
  have b0: "at_word_boundary None (w @ rest)"
    using wc(1) unfolding w by (simp add: at_word_boundary_def)
  have b1: "at_word_boundary (Some (last w)) rest"
    using wc(2) nw by (simp add: at_word_boundary_def)
  have tk: "take (length v) (w @ rest) = w" "drop (length v) (w @ rest) = rest"
    using len by simp_all
  have ww: "\<And>u. u \<in> set status_words \<Longrightarrow> whole_word_at None (w @ rest) u \<longleftrightarrow> u = v"
  proof
    fix u assume u: "u \<in> set status_words" and h: "whole_word_at None (w @ rest) u"
    have "u \<noteq> []" using u by (rule status_words_nonempty)
    with h have "lit_eq True (hd u) (hd (w @ rest))"
      using begins_with_hd by (simp add: whole_word_at_def)
    then have "lower_char (hd u) = lower_char (hd w)" using ne by (simp add: lit_eq_def)
    then have "lit_eq True (hd u) (hd v)" using hl(1) by (simp add: lit_eq_def)
    then show "u = v" by (rule status_words_first_letter[OF u assms(1)])
  next
    fix u assume "u \<in> set status_words" and uv: "u = v"
    have "begins_with True (w @ rest) v" using assms(2) by (rule begins_with_lower)
    then show "whole_word_at None (w @ rest) u"
      unfolding uv whole_word_at_def tk using b1 ne by (simp add: last_char_def)
  qed
  have d: "distinct status_words" by (simp add: status_words_def)
  have f: "filter (whole_word_at None (w @ rest)) status_words = [v]"
    by (rule filter_eq_singleton[OF d assms(1)]) (rule ww)
  have wa: "word_at None (w @ rest) = Some w"
    unfolding word_at_def f using b0 by (simp add: len[symmetric])
  have l: "label_at (w @ rest) = None"
    using nbr unfolding w by (simp add: label_at_def)
  have "token_at None (w @ rest) = Some w" by (simp add: token_at_def l wa)
  then show ?thesis unfolding w by simp
qed

section \<open>parseStatus: which text of the cell is the status\<close>

text \<open>
  Claim C4, as amended. For every status cell, \<^verbatim>\<open>parseStatus\<close> reads the cleaned cell from the
  left and takes the first status text that begins there: the label of a bracketed link label,
  or a word of the vocabulary Activated, Implementable, Proposed, Draft, Stale, Withdrawn,
  Final (a whole word, in any case, taken as written). A label at the head of the cell is
  taken; so is a vocabulary word at the head of the cell, whatever follows it, a link
  included. With neither in the cell the cleaned cell text is taken. From the text taken every
  parenthetical is removed, a trailing one in particular, the result is trimmed, and an empty
  result becomes \<^verbatim>\<open>Unknown\<close>; the status is never empty.
\<close>

theorem parseStatus_leftmost:
  "parseStatus text =
     (let cell = strip_bold (trim text);
          taken = (case first_token None cell of None \<Rightarrow> cell | Some t \<Rightarrow> t);
          result = trim (strip_parens (trim taken))
      in if result = [] then ''Unknown'' else result) \<and>
   parseStatus text \<noteq> [] \<and>
   (l \<noteq> [] \<and> CHR '']'' \<notin> set l \<longrightarrow> first_token None (CHR ''['' # l @ CHR '']'' # rest) = Some l) \<and>
   (v \<in> set status_words \<and> toLowerCase w = toLowerCase v \<and>
    (rest = [] \<or> \<not> is_word_char (hd rest)) \<longrightarrow>
      first_token None (w @ rest) = Some w) \<and>
   (CHR ''('' \<notin> set s \<and> CHR '')'' \<notin> set q \<longrightarrow> strip_parens (s @ CHR ''('' # q @ '')'') = s)"
proof (intro conjI impI)
  show "parseStatus text =
     (let cell = strip_bold (trim text);
          taken = (case first_token None cell of None \<Rightarrow> cell | Some t \<Rightarrow> t);
          result = trim (strip_parens (trim taken))
      in if result = [] then ''Unknown'' else result)"
    by (simp add: parseStatus_def Let_def status_choice_first_token status_finish_strip)
  show "parseStatus text \<noteq> []"
    by (simp add: parseStatus_def Let_def status_finish_nonempty)
next
  assume "l \<noteq> [] \<and> CHR '']'' \<notin> set l"
  then show "first_token None (CHR ''['' # l @ CHR '']'' # rest) = Some l"
    using first_token_label by blast
next
  assume "v \<in> set status_words \<and> toLowerCase w = toLowerCase v \<and>
    (rest = [] \<or> \<not> is_word_char (hd rest))"
  then show "first_token None (w @ rest) = Some w"
    using first_token_word by blast
next
  assume "CHR ''('' \<notin> set s \<and> CHR '')'' \<notin> set q"
  then show "strip_parens (s @ CHR ''('' # q @ '')'') = s"
    using strip_parens_trailing by blast
qed

theorem parseStatus_leftmost_witness:
  "parseStatus ''[Proposed](https://forum/x/discussions/42)'' = ''Proposed'' \<and>
   parseStatus '' **draft** (see [notes](n)) '' = ''draft'' \<and>
   first_token None (CHR ''['' # ''Proposed'' @ CHR '']'' # ''(https://forum/x/discussions/42)'') =
     Some ''Proposed'' \<and>
   first_token None (''draft'' @ '' (see [notes](n))'') = Some ''draft'' \<and>
   strip_parens (''Final '' @ CHR ''('' # ''2024'' @ '')'') = ''Final ''"
proof -
  have e: "parseStatus ''[Proposed](https://forum/x/discussions/42)'' = ''Proposed''"
    "parseStatus '' **draft** (see [notes](n)) '' = ''draft''"
    by (code_simp, code_simp)
  have a: "''Proposed'' \<noteq> [] \<and> CHR '']'' \<notin> set ''Proposed''" by simp
  have i: "''Draft'' \<in> set status_words" unfolding status_words_def by simp
  have lw: "toLowerCase ''draft'' = toLowerCase ''Draft''" by code_simp
  have r: "'' (see [notes](n))'' = [] \<or> \<not> is_word_char (hd '' (see [notes](n))'')"
    by (simp add: is_word_char_def is_upper_def is_lower_def is_digit_def)
  have b: "''Draft'' \<in> set status_words \<and> toLowerCase ''draft'' = toLowerCase ''Draft'' \<and>
      ('' (see [notes](n))'' = [] \<or> \<not> is_word_char (hd '' (see [notes](n))''))"
    using i lw r by (intro conjI)
  have c: "CHR ''('' \<notin> set ''Final '' \<and> CHR '')'' \<notin> set ''2024''" by simp
  show ?thesis
    using parseStatus_leftmost[of _ "''Proposed''" "''(https://forum/x/discussions/42)''"
        "''Draft''" "''draft''" "''Final ''" "''2024''"]
      parseStatus_leftmost[of _ "''Proposed''" "'' (see [notes](n))''"
        "''Draft''" "''draft''" "''Final ''" "''2024''"] e a b c
    by blast
qed

text \<open>
  The claim as stated fails on the usual form of the cell, the status word followed by a
  link in parentheses: the cell holds a markdown link with the label \<^verbatim>\<open>Discussion\<close>, and the
  status is the word before it.
\<close>

theorem parseStatus_label_counterexample:
  "parseStatus cell_activated = ''Activated'' \<and>
   cell_activated =
     ''Activated ('' @ ''[Discussion](https://github.com/avalanche-foundation/ACPs/discussions/130)'' @ '')''"
  by (intro conjI; code_simp)

subsection \<open>The abstract\<close>

lemma lastIndexOf_absent: "ch \<notin> set s \<Longrightarrow> lastIndexOf s ch = -1"
  by (induction s) (auto simp: Let_def)

lemma lastIndexOf_present:
  assumes "ch \<in> set s"
  shows "\<exists>k<length s. lastIndexOf s ch = int k \<and> s ! k = ch \<and> ch \<notin> set (drop (Suc k) s)"
  using assms
proof (induction s)
  case Nil
  then show ?case by simp
next
  case (Cons c cs)
  show ?case
  proof (cases "ch \<in> set cs")
    case True
    from Cons.IH[OF True] obtain k where k: "k < length cs" "lastIndexOf cs ch = int k"
      "cs ! k = ch" "ch \<notin> set (drop (Suc k) cs)" by blast
    then have "Suc k < length (c # cs) \<and> lastIndexOf (c # cs) ch = int (Suc k) \<and>
        (c # cs) ! Suc k = ch \<and> ch \<notin> set (drop (Suc (Suc k)) (c # cs))"
      by (simp add: Let_def)
    then show ?thesis by blast
  next
    case False
    with Cons.prems have c: "c = ch" by simp
    have "lastIndexOf cs ch = -1" using False by (rule lastIndexOf_absent)
    then have "0 < length (c # cs) \<and> lastIndexOf (c # cs) ch = int 0 \<and>
        (c # cs) ! 0 = ch \<and> ch \<notin> set (drop (Suc 0) (c # cs))"
      using c False by (simp add: Let_def)
    then show ?thesis by blast
  qed
qed

lemma trim_hd:
  assumes "trim s \<noteq> []"
  shows "\<not> is_space (hd (trim s))"
proof -
  let ?xs = "dropWhile is_space s"
  have ne: "?xs \<noteq> []"
  proof
    assume e: "?xs = []"
    have "trim s = []" unfolding trim_def e by simp
    with assms show False by simp
  qed
  then obtain x xs' where xs: "?xs = x # xs'" by (cases ?xs) auto
  have nx: "\<not> is_space x" using hd_dropWhile[OF ne] xs by simp
  have "dropWhile is_space (rev xs' @ [x]) =
        (if \<forall>y\<in>set (rev xs'). is_space y then [x] else dropWhile is_space (rev xs') @ [x])"
    using nx by (simp add: dropWhile_append)
  then have "hd (rev (dropWhile is_space (rev xs' @ [x]))) = x" by (simp split: if_splits)
  then have "hd (trim s) = x" by (simp add: trim_def xs)
  with nx show ?thesis by simp
qed

lemma abstract_excerpt_short: "length (trim g) \<le> 200 \<Longrightarrow> abstract_excerpt g = trim g"
  by (simp add: abstract_excerpt_def Let_def)

lemma abstract_excerpt_long:
  assumes "length (trim g) > 200"
  shows "\<exists>k\<le>200. abstract_excerpt g = take k (trim g) @ ''...'' \<and>
           (if CHR '' '' \<in> set (take 200 (trim g))
            then k < 200 \<and> trim g ! k = CHR '' '' \<and>
                 CHR '' '' \<notin> set (drop (Suc k) (take 200 (trim g)))
            else k = 200)"
proof (cases "CHR '' '' \<in> set (take 200 (trim g))")
  case False
  then have "lastIndexOf (take 200 (trim g)) CHR '' '' = -1" by (rule lastIndexOf_absent)
  then have "abstract_excerpt g = take 200 (trim g) @ ''...''"
    using assms by (simp add: abstract_excerpt_def Let_def substring0_def)
  then show ?thesis using False by auto
next
  case True
  let ?a = "trim g" and ?t = "take 200 (trim g)"
  from lastIndexOf_present[OF True] obtain k where k: "k < length ?t"
    "lastIndexOf ?t CHR '' '' = int k" "?t ! k = CHR '' ''"
    "CHR '' '' \<notin> set (drop (Suc k) ?t)" by blast
  have k200: "k < 200" using k(1) by simp
  have ne: "?a \<noteq> []" using assms by auto
  have "\<not> is_space (hd ?a)" using ne by (rule trim_hd)
  then have "hd ?a \<noteq> CHR '' ''" by (auto simp: is_space_def)
  moreover have "?t ! 0 = hd ?a" using ne by (cases ?a) simp_all
  ultimately have "k \<noteq> 0" using k(3) by metis
  then have "abstract_excerpt g = take k ?t @ ''...''"
    using assms k(2) by (simp add: abstract_excerpt_def Let_def substring0_def)
  moreover have "take k ?t = take k ?a" using k200 by (simp add: min_def)
  moreover have "?a ! k = CHR '' ''" using k(3) k200 by simp
  ultimately have "k \<le> 200 \<and> abstract_excerpt g = take k ?a @ ''...'' \<and>
      (k < 200 \<and> ?a ! k = CHR '' '' \<and> CHR '' '' \<notin> set (drop (Suc k) ?t))"
    using k200 k(4) by simp
  then show ?thesis unfolding if_P[OF True] by blast
qed

lemma fallback_after:
  "abstract_fallback True ls =
     (case find paragraph_line (takeWhile (\<lambda>l. \<not> startsWith l ''##'') ls) of
        None \<Rightarrow> []
      | Some l \<Rightarrow> if length l > 200 then take 200 l @ ''...'' else l)"
proof (induction ls)
  case Nil
  then show ?case by simp
next
  case (Cons line rest)
  show ?case
  proof (cases "startsWith line ''##''")
    case True
    then show ?thesis by simp
  next
    case False
    have tm: "track_marker line \<longleftrightarrow>
        str_includes line ''| **Track** |'' \<or> str_includes line ''|Track|''"
      by (simp add: track_marker_def)
    show ?thesis
    proof (cases "track_marker line")
      case True
      then have "\<not> paragraph_line line" by (simp add: paragraph_line_def)
      then show ?thesis using False True tm Cons.IH by simp
    next
      case nt: False
      show ?thesis
      proof (cases "paragraph_line line")
        case True
        then have "trim line \<noteq> [] \<and> \<not> startsWith line ''|'' \<and> \<not> startsWith line ''#''"
          by (simp add: paragraph_line_def blank_trim)
        then show ?thesis using False nt tm True by (simp add: substring0_def)
      next
        case np: False
        then have "\<not> (trim line \<noteq> [] \<and> \<not> startsWith line ''|'' \<and> \<not> startsWith line ''#'')"
          using nt by (simp add: paragraph_line_def blank_trim)
        then show ?thesis using False nt tm np Cons.IH by auto
      qed
    qed
  qed
qed

lemma fallback_before:
  "abstract_fallback False ls =
   abstract_fallback True (tl (dropWhile (\<lambda>l. \<not> track_marker l) ls))"
proof (induction ls)
  case Nil
  then show ?case by simp
next
  case (Cons line rest)
  have tm: "track_marker line \<longleftrightarrow>
      str_includes line ''| **Track** |'' \<or> str_includes line ''|Track|''"
    by (simp add: track_marker_def)
  show ?case
  proof (cases "track_marker line")
    case True
    then show ?thesis using tm by simp
  next
    case False
    then show ?thesis using tm Cons.IH by simp
  qed
qed

lemma fallback_characterised:
  "abstract_fallback False ls =
     (case fallback_line ls of
        None \<Rightarrow> []
      | Some l \<Rightarrow> if length l > 200 then take 200 l @ ''...'' else l)"
  by (simp add: fallback_before fallback_after fallback_line_def)


lemma star_atom_head:
  assumes "\<forall>x\<in>set L. P x" and "t = [] \<or> \<not> P (hd t)"
  shows "\<exists>more. matches ci (Star (Atom P)) (p, L @ t, c) = (last_char p L, t, c) # more"
  using assms(1)
proof (induction L arbitrary: p)
  case Nil
  have "matches ci (Atom P) (p, t, c) = []"
    using assms(2) by (cases t) auto
  then show ?case by (simp add: last_char_def)
next
  case (Cons x L)
  then obtain more where
    "matches ci (Star (Atom P)) (Some x, L @ t, c) = (last_char (Some x) L, t, c) # more"
    by auto
  then show ?case using Cons.prems by (simp add: last_char_Cons)
qed

lemma plus_atom_head:
  assumes "\<forall>x\<in>set L. P x" and "L \<noteq> []" and "t = [] \<or> \<not> P (hd t)"
  shows "\<exists>more. matches ci (Plus (Atom P)) (p, L @ t, c) = (last_char p L, t, c) # more"
proof -
  obtain x L' where L: "L = x # L'" using assms(2) by (cases L) auto
  then have px: "P x" and L': "\<forall>x\<in>set L'. P x" using assms(1) by simp_all
  from star_atom_head[OF L' assms(3), of ci "Some x" c] obtain more where
    "matches ci (Star (Atom P)) (Some x, L' @ t, c) = (last_char (Some x) L', t, c) # more"
    by blast
  then show ?thesis using px unfolding L by (simp add: Plus_def last_char_Cons)
qed

lemma lit_eq_hash_lf [simp]:
  "lit_eq ci CHR ''#'' x \<longleftrightarrow> x = CHR ''#''" "lit_eq ci CHR 0x0A x \<longleftrightarrow> x = CHR 0x0A"
  by (auto simp: lit_eq_plain is_upper_def is_lower_def)

lemma space_not_A: "is_space z \<Longrightarrow> \<not> lit_eq True CHR ''A'' z"
proof -
  assume "is_space z"
  then have "\<not> is_upper z" "z \<noteq> CHR ''a''" by (auto simp: is_space_def is_upper_def)
  moreover have "lower_char CHR ''A'' = CHR ''a''" by (rule lower_first_letters)
  ultimately show ?thesis by (simp add: lit_eq_def lower_char_def)
qed

lemma star_atom_seq_Nil:
  "matches ci (Seq (Star (Atom P)) r) (q, [], c) = matches ci r (q, [], c)"
  by simp

lemma star_atom_seq_Cons:
  "matches ci (Seq (Star (Atom P)) r) (q, x # xs, c) =
     (if P x then matches ci (Seq (Star (Atom P)) r) (Some x, xs, c) @ matches ci r (q, x # xs, c)
      else matches ci r (q, x # xs, c))"
  by simp

lemma matches_capture:
  fixes c :: caps
  defines "nh \<equiv> \<lambda>c. c \<noteq> CHR ''#''"
  shows "matches ci (Grp 1 (Plus (Atom nh))) (q, u, c) =
           (if u = [] \<or> hd u = CHR ''#'' then [] else matches ci (Grp 1 (Plus (Atom nh))) (q, u, c))"
    and "u \<noteq> [] \<Longrightarrow> hd u \<noteq> CHR ''#'' \<Longrightarrow>
           \<exists>p' more. matches ci (Grp 1 (Plus (Atom nh))) (q, u, c) =
             (p', dropWhile nh u, c(1 := Some (takeWhile nh u))) # more"
proof -
  show "matches ci (Grp 1 (Plus (Atom nh))) (q, u, c) =
           (if u = [] \<or> hd u = CHR ''#'' then [] else matches ci (Grp 1 (Plus (Atom nh))) (q, u, c))"
    by (cases u) (simp_all add: Plus_def nh_def)
  assume u: "u \<noteq> []" "hd u \<noteq> CHR ''#''"
  have "\<exists>more. matches ci (Plus (Atom nh)) (q, takeWhile nh u @ dropWhile nh u, c) =
          (last_char q (takeWhile nh u), dropWhile nh u, c) # more"
  proof (rule plus_atom_head)
    show "\<forall>x\<in>set (takeWhile nh u). nh x" by (auto dest: set_takeWhileD)
    show "takeWhile nh u \<noteq> []" using u by (cases u) (simp_all add: nh_def)
    show "dropWhile nh u = [] \<or> \<not> nh (hd (dropWhile nh u))"
      using hd_dropWhile[of nh u] by blast
  qed
  then obtain more where
    m: "matches ci (Plus (Atom nh)) (q, u, c) = (last_char q (takeWhile nh u), dropWhile nh u, c) # more"
    by auto
  have "take (length u - length (dropWhile nh u)) u = takeWhile nh u"
    by (metis append_eq_conv_conj length_append add_diff_cancel_right' takeWhile_dropWhile_id)
  then have "matches ci (Grp 1 (Plus (Atom nh))) (q, u, c) =
      (last_char q (takeWhile nh u), dropWhile nh u, c(1 := Some (takeWhile nh u))) #
      map (\<lambda>(p', s', c'). (p', s', c'(1 := Some (take (length u - length s') u)))) more"
    unfolding matches.simps(8) m by simp
  then show "\<exists>p' more. matches ci (Grp 1 (Plus (Atom nh))) (q, u, c) =
             (p', dropWhile nh u, c(1 := Some (takeWhile nh u))) # more"
    by blast
qed

lemma takeWhile_past_spaces:
  "takeWhile (\<lambda>c. c \<noteq> CHR ''#'') s =
     takeWhile is_space s @ takeWhile (\<lambda>c. c \<noteq> CHR ''#'') (dropWhile is_space s)"
  by (induction s) (auto simp: is_space_def)

lemma trim_past_spaces:
  assumes "\<forall>x\<in>set w. is_space x"
  shows "trim (w @ g) = trim g"
proof -
  have "dropWhile is_space (w @ g) = dropWhile is_space g"
    using assms by (induction w) simp_all
  then show ?thesis unfolding trim_def by simp
qed

lemma blank_line_then_capture:
  fixes c :: caps
  defines "nh \<equiv> \<lambda>c. c \<noteq> CHR ''#''"
  defines "R4 \<equiv> Seq (Lit CHR 0x0A) (Seq (Lit CHR 0x0A) (Grp 1 (Plus (Atom nh))))"
  shows "if blank_line_ahead s
         then \<exists>p' s' g more w. matches ci (Seq (Star (Atom is_space)) R4) (q, s, c) =
                  (p', s', c(1 := Some g)) # more \<and>
                (\<forall>x\<in>set w. is_space x) \<and> takeWhile nh s = w @ g
         else matches ci (Seq (Star (Atom is_space)) R4) (q, s, c) = []"
proof (induction s arbitrary: q)
  case Nil
  show ?case unfolding star_atom_seq_Nil by (simp add: R4_def)
next
  case (Cons x xs)
  let ?G = "Grp 1 (Plus (Atom nh))"
  let ?here = "x = LF \<and> (case xs of y # z # _ \<Rightarrow> y = LF \<and> z \<noteq> CHR ''#'' | _ \<Rightarrow> False)"
  have lf: "is_space LF" "nh LF" by (simp_all add: is_space_def LF_def nh_def)
  have here_no: "\<not> ?here \<Longrightarrow> matches ci R4 (q, x # xs, c) = []"
  proof -
    assume n: "\<not> ?here"
    show "matches ci R4 (q, x # xs, c) = []"
    proof (cases "x = LF")
      case False
      then show ?thesis by (simp add: R4_def LF_def)
    next
      case True
      show ?thesis
      proof (cases xs)
        case Nil
        then show ?thesis using True by (simp add: R4_def LF_def)
      next
        case (Cons y ys)
        show ?thesis
        proof (cases "y = LF")
          case False
          then show ?thesis using True Cons by (simp add: R4_def LF_def)
        next
          case yl: True
          have e: "ys = [] \<or> hd ys = CHR ''#''"
            using n True Cons yl by (cases ys) simp_all
          have "matches ci ?G (Some CHR 0x0A, ys, c) = []"
            using matches_capture(1)[of ci "Some CHR 0x0A" ys c] e unfolding nh_def by simp
          then show ?thesis using True Cons yl unfolding R4_def LF_def
            by (simp del: matches.simps(8))
        qed
      qed
    qed
  qed
  have here_yes: "?here \<Longrightarrow> \<exists>p' s' g more. matches ci R4 (q, x # xs, c) =
        (p', s', c(1 := Some g)) # more \<and> takeWhile nh (x # xs) = [LF, LF] @ g"
  proof -
    assume h: "?here"
    then obtain z zs where xs: "xs = LF # z # zs" and z: "z \<noteq> CHR ''#''" and x: "x = LF"
      by (cases xs; cases "tl xs") auto
    from matches_capture(2)[of "z # zs" ci "Some CHR 0x0A" c] z
    obtain p' more where
      "matches ci ?G (Some CHR 0x0A, z # zs, c) =
         (p', dropWhile nh (z # zs), c(1 := Some (takeWhile nh (z # zs)))) # more"
      unfolding nh_def by auto
    then have "matches ci R4 (q, x # xs, c) =
         (p', dropWhile nh (z # zs), c(1 := Some (takeWhile nh (z # zs)))) # more"
      unfolding R4_def xs x LF_def by (simp del: matches.simps(8))
    moreover have "takeWhile nh (x # xs) = [LF, LF] @ takeWhile nh (z # zs)"
      unfolding xs x using lf(2) by simp
    ultimately show ?thesis by blast
  qed
  show ?case
  proof (cases "is_space x")
    case False
    then have nl: "x \<noteq> LF" using lf(1) by auto
    then have "\<not> ?here" by simp
    then have "matches ci R4 (q, x # xs, c) = []" by (rule here_no)
    then show ?thesis using False nl unfolding star_atom_seq_Cons by simp
  next
    case sp: True
    then have nhx: "nh x" by (auto simp: nh_def is_space_def)
    have unfold: "matches ci (Seq (Star (Atom is_space)) R4) (q, x # xs, c) =
        matches ci (Seq (Star (Atom is_space)) R4) (Some x, xs, c) @ matches ci R4 (q, x # xs, c)"
      unfolding star_atom_seq_Cons using sp by simp
    show ?thesis
    proof (cases "blank_line_ahead xs")
      case True
      with Cons.IH[of "Some x"] obtain p' s' g more w where
        m: "matches ci (Seq (Star (Atom is_space)) R4) (Some x, xs, c) = (p', s', c(1 := Some g)) # more"
        and w: "\<forall>x\<in>set w. is_space x" "takeWhile nh xs = w @ g"
        by auto
      have "matches ci (Seq (Star (Atom is_space)) R4) (q, x # xs, c) =
          (p', s', c(1 := Some g)) # (more @ matches ci R4 (q, x # xs, c))"
        unfolding unfold m by simp
      moreover have "\<forall>y\<in>set (x # w). is_space y" using sp w(1) by simp
      moreover have "takeWhile nh (x # xs) = (x # w) @ g" using nhx w(2) by simp
      ultimately have "\<exists>p' s' g more w. matches ci (Seq (Star (Atom is_space)) R4) (q, x # xs, c) =
                  (p', s', c(1 := Some g)) # more \<and>
                (\<forall>x\<in>set w. is_space x) \<and> takeWhile nh (x # xs) = w @ g"
        by blast
      then show ?thesis using True sp by simp
    next
      case False
      with Cons.IH[of "Some x"] have
        e: "matches ci (Seq (Star (Atom is_space)) R4) (Some x, xs, c) = []" by simp
      show ?thesis
      proof (cases ?here)
        case True
        from here_yes[OF True] obtain p' s' g more where
          "matches ci R4 (q, x # xs, c) = (p', s', c(1 := Some g)) # more"
          "takeWhile nh (x # xs) = [LF, LF] @ g" by blast
        then have "matches ci (Seq (Star (Atom is_space)) R4) (q, x # xs, c) =
                  (p', s', c(1 := Some g)) # more \<and>
                (\<forall>x\<in>set [LF, LF]. is_space x) \<and> takeWhile nh (x # xs) = [LF, LF] @ g"
          unfolding unfold e using lf(1) by simp
        then have "\<exists>p' s' g more w. matches ci (Seq (Star (Atom is_space)) R4) (q, x # xs, c) =
                  (p', s', c(1 := Some g)) # more \<and>
                (\<forall>x\<in>set w. is_space x) \<and> takeWhile nh (x # xs) = w @ g"
          by blast
        moreover have "blank_line_ahead (x # xs)" using True by simp
        ultimately show ?thesis by (simp only: if_True)
      next
        case nh: False
        then have "matches ci R4 (q, x # xs, c) = []" by (rule here_no)
        then have "matches ci (Seq (Star (Atom is_space)) R4) (q, x # xs, c) = []"
          unfolding unfold e by simp
        moreover have "\<not> blank_line_ahead (x # xs)" using nh False by simp
        ultimately show ?thesis by (simp only: if_False)
      qed
    qed
  qed
qed

lemma begins_with_hashes: "begins_with ci s ''##'' \<longleftrightarrow> startsWith s ''##''"
proof (cases s)
  case Nil
  then show ?thesis by (simp add: begins_with_simps)
next
  case (Cons x xs)
  then show ?thesis by (cases xs) (auto simp: begins_with_simps)
qed

lemma abstract_at_match:
  "case abstract_at s of
     None \<Rightarrow> matches True re_abstract (p, s, \<lambda>_. None) = []
   | Some t \<Rightarrow> \<exists>p' s' g more. matches True re_abstract (p, s, \<lambda>_. None) =
                  (p', s', (\<lambda>_. None)(1 := Some g)) # more \<and> trim g = trim t"
proof -
  let ?nh = "\<lambda>c. c \<noteq> CHR ''#''"
  let ?R4 = "Seq (Lit CHR 0x0A) (Seq (Lit CHR 0x0A) (Grp 1 (Plus (Atom ?nh))))"
  let ?R3 = "Seq (Star (Atom is_space)) ?R4"
  let ?R2 = "Seq (Str ''Abstract'') ?R3"
  let ?R1 = "Seq (Star (Atom is_space)) ?R2"
  let ?c = "\<lambda>_::nat. None :: string option"
  have re: "re_abstract = Seq (Str ''##'') ?R1"
    by (simp only: re_abstract_def Seqs.simps ws_def)
  have n2: "length ''##'' = 2" and n8: "length ''Abstract'' = 8" by simp_all
  have R0: "matches True re_abstract (p, s, ?c) =
      (if startsWith s ''##'' then matches True ?R1 (last_char p (take 2 s), drop 2 s, ?c) else [])"
    unfolding re matches.simps(4)[of True "Str ''##''"] matches_Str begins_with_hashes n2
    by (cases "startsWith s ''##''")
       (simp_all only: if_True if_False list.map concat.simps append_Nil2)
  let ?s1 = "drop 2 s"
  let ?h = "dropWhile is_space ?s1"
  have kills: "\<And>p' z zs c'. is_space z \<Longrightarrow> matches True ?R2 (p', z # zs, c') = []"
    unfolding matches.simps(4)[of True "Str ''Abstract''"] matches_Str
    by (simp add: begins_with_simps space_not_A)
  have R1: "\<And>q. matches True ?R1 (q, ?s1, ?c) =
      matches True ?R2 (last_char q (takeWhile is_space ?s1), ?h, ?c)"
  proof -
    fix q
    have "concat (map (matches True ?R2)
            (matches True (Star (Atom is_space)) (q, takeWhile is_space ?s1 @ ?h, ?c))) =
          matches True ?R2 (last_char q (takeWhile is_space ?s1), ?h, ?c)"
    proof (rule star_atom_then[where P = is_space and K = "matches True ?R2"])
      show "\<forall>x\<in>set (takeWhile is_space ?s1). is_space x" by (auto dest: set_takeWhileD)
      show "?h = [] \<or> \<not> is_space (hd ?h)" using hd_dropWhile[of is_space ?s1] by blast
      show "\<And>p' z zs c'. is_space z \<Longrightarrow> matches True ?R2 (p', z # zs, c') = []" by (rule kills)
    qed
    then show "matches True ?R1 (q, ?s1, ?c) =
      matches True ?R2 (last_char q (takeWhile is_space ?s1), ?h, ?c)"
      unfolding matches.simps(4)[of True "Star (Atom is_space)" ?R2]
      by (simp only: takeWhile_dropWhile_id)
  qed
  have R2: "\<And>q. matches True ?R2 (q, ?h, ?c) =
      (if begins_with True ?h ''Abstract''
       then matches True ?R3 (last_char q (take 8 ?h), drop 8 ?h, ?c) else [])"
    unfolding matches.simps(4)[of True "Str ''Abstract''"] matches_Str n8
    by (cases "begins_with True ?h ''Abstract''")
       (simp_all only: if_True if_False list.map concat.simps append_Nil2)
  show ?thesis
  proof (cases "startsWith s ''##'' \<and> begins_with True ?h ''Abstract''")
    case False
    then have "abstract_at s = None" by (auto simp: abstract_at_def Let_def)
    moreover have "matches True re_abstract (p, s, ?c) = []"
    proof (cases "startsWith s ''##''")
      case False
      then show ?thesis unfolding R0 by (simp only: if_False)
    next
      case st: True
      then have nb: "\<not> begins_with True ?h ''Abstract''" using False by simp
      show ?thesis unfolding R0 R1 R2 using st nb by (simp only: if_True if_False)
    qed
    ultimately show ?thesis by simp
  next
    case True
    let ?s2 = "drop 8 ?h"
    let ?q = "last_char (last_char (last_char p (take 2 s)) (takeWhile is_space ?s1)) (take 8 ?h)"
    have m: "matches True re_abstract (p, s, ?c) = matches True ?R3 (?q, ?s2, ?c)"
      using True unfolding R0 R1 R2 by (simp only: if_True)
    show ?thesis
    proof (cases "blank_line_ahead ?s2")
      case False
      then have "abstract_at s = None" using True by (simp add: abstract_at_def Let_def)
      moreover have "matches True ?R3 (?q, ?s2, ?c) = []"
        using blank_line_then_capture[of ?s2 True ?q ?c] False by (simp only: if_False)
      ultimately show ?thesis using m by simp
    next
      case b: True
      have a: "abstract_at s = Some (takeWhile ?nh (dropWhile is_space ?s2))"
        using True b by (simp add: abstract_at_def Let_def)
      from blank_line_then_capture[of ?s2 True ?q ?c] b obtain p' s' g more w where
        mm: "matches True ?R3 (?q, ?s2, ?c) = (p', s', ?c(1 := Some g)) # more"
        and w: "\<forall>x\<in>set w. is_space x" "takeWhile ?nh ?s2 = w @ g"
        by (simp only: if_True) blast
      have "trim (w @ g) = trim g" using w(1) by (rule trim_past_spaces)
      moreover have "trim (takeWhile is_space ?s2 @ takeWhile ?nh (dropWhile is_space ?s2)) =
            trim (takeWhile ?nh (dropWhile is_space ?s2))"
        by (rule trim_past_spaces) (auto dest: set_takeWhileD)
      ultimately have "trim g = trim (takeWhile ?nh (dropWhile is_space ?s2))"
        using w(2) takeWhile_past_spaces[of ?s2] by simp
      then have "\<exists>p' s' g more. matches True re_abstract (p, s, ?c) =
                  (p', s', ?c(1 := Some g)) # more \<and>
                  trim g = trim (takeWhile ?nh (dropWhile is_space ?s2))"
        unfolding m mm by blast
      then show ?thesis unfolding a by simp
    qed
  qed
qed

lemma abstract_section_search:
  "case abstract_section s of
     None \<Rightarrow> search_from True re_abstract p s = None
   | Some t \<Rightarrow> \<exists>f g. search_from True re_abstract p s = Some f \<and> groups f 1 = Some g \<and>
                  trim g = trim t"
proof (induction s arbitrary: p)
  case Nil
  have "abstract_at [] = None" by (simp add: abstract_at_def)
  with abstract_at_match[where s = "[]" and p = p] show ?case by simp
next
  case (Cons x xs)
  show ?case
  proof (cases "abstract_at (x # xs)")
    case None
    with abstract_at_match[where s = "x # xs" and p = p]
    have m: "matches True re_abstract (p, x # xs, \<lambda>_. None) = []" by simp
    have s: "search_from True re_abstract p (x # xs) =
        map_option (\<lambda>f. f\<lparr>m_before := x # m_before f\<rparr>) (search_from True re_abstract (Some x) xs)"
      using m by simp
    show ?thesis
    proof (cases "abstract_section xs")
      case n: None
      with Cons.IH[of "Some x"] have "search_from True re_abstract (Some x) xs = None" by simp
      then show ?thesis using None n s by simp
    next
      case (Some t)
      with Cons.IH[of "Some x"] obtain f g where
        "search_from True re_abstract (Some x) xs = Some f" "groups f 1 = Some g" "trim g = trim t"
        by auto
      then have "search_from True re_abstract p (x # xs) = Some (f\<lparr>m_before := x # m_before f\<rparr>) \<and>
          groups (f\<lparr>m_before := x # m_before f\<rparr>) 1 = Some g \<and> trim g = trim t"
        using s by simp
      then have "\<exists>f g. search_from True re_abstract p (x # xs) = Some f \<and> groups f 1 = Some g \<and>
                  trim g = trim t" by blast
      then show ?thesis using None Some by simp
    qed
  next
    case (Some t)
    with abstract_at_match[where s = "x # xs" and p = p] obtain p' s' g more where
      m: "matches True re_abstract (p, x # xs, \<lambda>_. None) = (p', s', (\<lambda>_. None)(1 := Some g)) # more"
      and g: "trim g = trim t" by auto
    have "\<exists>f. search_from True re_abstract p (x # xs) = Some f \<and> groups f 1 = Some g"
      using m by simp
    then have "\<exists>f g. search_from True re_abstract p (x # xs) = Some f \<and> groups f 1 = Some g \<and>
                  trim g = trim t" using g by blast
    then show ?thesis using Some by simp
  qed
qed

lemma abstract_excerpt_trim: "trim g = trim t \<Longrightarrow> abstract_excerpt g = abstract_excerpt t"
  by (simp add: abstract_excerpt_def)

lemma extractAbstract_section:
  "extractAbstract md =
     (case abstract_section md of
        Some t \<Rightarrow> abstract_excerpt t
      | None \<Rightarrow> abstract_fallback False (lines_of md))"
proof (cases "abstract_section md")
  case None
  with abstract_section_search[where s = md and p = None] have "str_match True re_abstract md = None"
    by (simp add: str_match_def)
  then show ?thesis using None by (simp add: extractAbstract_def lines_of_def)
next
  case (Some t)
  with abstract_section_search[where s = md and p = None] obtain f g where
    f: "str_match True re_abstract md = Some f" "groups f 1 = Some g" "trim g = trim t"
    by (auto simp: str_match_def)
  have "extractAbstract md = abstract_excerpt g"
    using f(1,2) by (simp add: extractAbstract_def group_text_def)
  also have "\<dots> = abstract_excerpt t" using f(3) by (rule abstract_excerpt_trim)
  finally show ?thesis using Some by simp
qed

section \<open>extractAbstract: the excerpt\<close>

text \<open>
  Claim C3, as amended. For every document, \<^verbatim>\<open>extractAbstract\<close> looks for the first place
  where there stand the characters \<^verbatim>\<open>##\<close> (wherever they are: at the start of a line or not, a
  run of two \<^verbatim>\<open>#\<close> or the end of a longer one), white space or none, the word \<^verbatim>\<open>Abstract\<close> in
  any case, and white space in which two consecutive line feeds are directly followed by a
  character other than \<^verbatim>\<open>#\<close>. With such a place the result is the excerpt of the text that
  runs from the first character after the word that is not white space up to the next \<^verbatim>\<open>#\<close>
  character or the end of the document. The excerpt of a text is the text trimmed when that
  has at most 200 characters; otherwise it is a prefix of the trimmed text followed by an
  ellipsis, the prefix ending before the last space character among the first 200
  characters, or being those 200 characters when there is no space among them. Without such
  a place the result comes from the line found by the fallback: the first line, after the
  first line that contains \<^verbatim>\<open>| **Track** |\<close> or \<^verbatim>\<open>|Track|\<close> and before the next line starting
  with \<^verbatim>\<open>##\<close>, that is not blank, does not start with \<^verbatim>\<open>|\<close> or \<^verbatim>\<open>#\<close> and contains neither of
  the two marks; that line is returned whole when it has at most 200 characters, and
  otherwise cut to at most 200 characters with an ellipsis appended; without such a line the
  abstract is empty.
\<close>

theorem extractAbstract_result:
  "(case abstract_section md of
      Some t \<Rightarrow> extractAbstract md = abstract_excerpt t
    | None \<Rightarrow>
        (case fallback_line (lines_of md) of
           None \<Rightarrow> extractAbstract md = []
         | Some l \<Rightarrow>
             (length l \<le> 200 \<longrightarrow> extractAbstract md = l) \<and>
             (length l > 200 \<longrightarrow> (\<exists>k\<le>200. extractAbstract md = take k l @ ''...'')))) \<and>
   (length (trim g) \<le> 200 \<longrightarrow> abstract_excerpt g = trim g) \<and>
   (length (trim g) > 200 \<longrightarrow>
      (\<exists>k\<le>200. abstract_excerpt g = take k (trim g) @ ''...'' \<and>
         (if CHR '' '' \<in> set (take 200 (trim g))
          then k < 200 \<and> trim g ! k = CHR '' '' \<and>
               CHR '' '' \<notin> set (drop (Suc k) (take 200 (trim g)))
          else k = 200)))"
proof (intro conjI impI)
  show "case abstract_section md of
      Some t \<Rightarrow> extractAbstract md = abstract_excerpt t
    | None \<Rightarrow>
        (case fallback_line (lines_of md) of
           None \<Rightarrow> extractAbstract md = []
         | Some l \<Rightarrow>
             (length l \<le> 200 \<longrightarrow> extractAbstract md = l) \<and>
             (length l > 200 \<longrightarrow> (\<exists>k\<le>200. extractAbstract md = take k l @ ''...'')))"
  proof (cases "abstract_section md")
    case (Some t)
    then show ?thesis by (simp add: extractAbstract_section)
  next
    case None
    then have e: "extractAbstract md =
       (case fallback_line (lines_of md) of
          None \<Rightarrow> []
        | Some l \<Rightarrow> if length l > 200 then take 200 l @ ''...'' else l)"
      by (simp add: extractAbstract_section fallback_characterised)
    have "case fallback_line (lines_of md) of
           None \<Rightarrow> extractAbstract md = []
         | Some l \<Rightarrow>
             (length l \<le> 200 \<longrightarrow> extractAbstract md = l) \<and>
             (length l > 200 \<longrightarrow> (\<exists>k\<le>200. extractAbstract md = take k l @ ''...''))"
    proof (cases "fallback_line (lines_of md)")
      case None
      then show ?thesis using e by simp
    next
      case (Some l)
      have "length l > 200 \<longrightarrow> (\<exists>k\<le>200. extractAbstract md = take k l @ ''...'')"
      proof
        assume "length l > 200"
        then have "(200::nat) \<le> 200 \<and> extractAbstract md = take 200 l @ ''...''"
          using e Some by simp
        then show "\<exists>k\<le>200. extractAbstract md = take k l @ ''...''" by blast
      qed
      then show ?thesis using e Some by simp
    qed
    then show ?thesis using None by simp
  qed
next
  assume "length (trim g) \<le> 200"
  then show "abstract_excerpt g = trim g" by (rule abstract_excerpt_short)
next
  assume "length (trim g) > 200"
  then show "\<exists>k\<le>200. abstract_excerpt g = take k (trim g) @ ''...'' \<and>
         (if CHR '' '' \<in> set (take 200 (trim g))
          then k < 200 \<and> trim g ! k = CHR '' '' \<and>
               CHR '' '' \<notin> set (drop (Suc k) (take 200 (trim g)))
          else k = 200)"
    by (rule abstract_excerpt_long)
qed

theorem extractAbstract_result_witness:
  "abstract_section doc_plain_abstract = Some (''A short abstract.'' @ [LF, LF]) \<and>
   extractAbstract doc_plain_abstract = ''A short abstract.'' \<and>
   abstract_section doc_paragraph = None \<and>
   extractAbstract doc_paragraph = ''First paragraph.'' \<and>
   extractAbstract (document [''# Title'', ''## abstract  '', [], [], ''Text behind two blank lines.'']) =
     ''Text behind two blank lines.''"
proof -
  let ?t = "''A short abstract.'' @ [LF, LF]"
  have s: "abstract_section doc_plain_abstract = Some ?t"
    unfolding LF_def by code_simp
  have t: "trim ?t = ''A short abstract.''" unfolding LF_def by code_simp
  have "extractAbstract doc_plain_abstract = abstract_excerpt ?t"
    using extractAbstract_result[of doc_plain_abstract] s by simp
  moreover have "abstract_excerpt ?t = trim ?t"
    using extractAbstract_result[of _ ?t] t by simp
  ultimately have a: "extractAbstract doc_plain_abstract = ''A short abstract.''"
    using t by simp
  have n: "abstract_section doc_paragraph = None" by code_simp
  have f: "fallback_line (lines_of doc_paragraph) = Some ''First paragraph.''" by code_simp
  have p: "extractAbstract doc_paragraph = ''First paragraph.''"
    using extractAbstract_result[of doc_paragraph] n f by simp
  have b: "extractAbstract (document [''# Title'', ''## abstract  '', [], [], ''Text behind two blank lines.'']) =
     ''Text behind two blank lines.''" by code_simp
  from a s n p b show ?thesis by (intro conjI)
qed

text \<open>
  The claim as stated fails in six ways. A line after a level-2 heading is never returned
  by the fallback: the document with the lines \<^verbatim>\<open>| **Track** | Standards |\<close>,
  \<^verbatim>\<open>## Motivation\<close>, \<^verbatim>\<open>Some text\<close> has an empty abstract. The text of an Abstract section ends
  at the first \<^verbatim>\<open>#\<close>, not at the next heading. A long fallback line is cut after 200
  characters, inside the word. A long abstract is cut at the last space character, not at
  the line break that follows it. A heading of level 3 is taken for the Abstract heading.
  A Track row that the table parser recognises, written without the spaces around the bold
  label, does not start the fallback.
\<close>

theorem extractAbstract_counterexample:
  "extractAbstract doc_heading_guard = [] \<and>
   extractAbstract doc_hash_in_abstract = ''Fixes issue'' \<and>
   extractAbstract doc_long_fallback = ''aaa '' @ replicate 196 CHR ''c'' @ ''...'' \<and>
   extractAbstract doc_wrapped_abstract = ''aaa...'' \<and>
   extractAbstract doc_level3_heading = ''Only a subsection.'' \<and>
   is_track_row ''|**Track**| Standards |'' \<and> extractAbstract doc_tight_track = []"
  by (intro conjI; code_simp)

end
